theory Spec2Isabelle
  imports Main
begin

section \<open>Documents\<close>

text \<open>
  A JavaScript value as far as the replication plugin looks at it. Nested objects are
  references (\<open>JRef\<close>), so a shallow clone shares them.
\<close>

datatype jsval = JUndefined | JNull | JBool bool | JNum int | JStr string | JRef nat

text \<open>An object is the list of its own properties; a property occurs at most once.\<close>

type_synonym jsobj = "(string \<times> jsval) list"

type_synonym err = string

definition getProp :: "jsobj \<Rightarrow> string \<Rightarrow> jsval" where
  "getProp obj k = (case map_of obj k of None \<Rightarrow> JUndefined | Some v \<Rightarrow> v)"

definition hasOwnProperty :: "jsobj \<Rightarrow> string \<Rightarrow> bool" where
  "hasOwnProperty obj k = (map_of obj k \<noteq> None)"

definition deleteProp :: "jsobj \<Rightarrow> string \<Rightarrow> jsobj" where
  "deleteProp obj k = filter (\<lambda>kv. fst kv \<noteq> k) obj"

definition setProp :: "jsobj \<Rightarrow> string \<Rightarrow> jsval \<Rightarrow> jsobj" where
  "setProp obj k v =
     (if hasOwnProperty obj k then map (\<lambda>kv. if fst kv = k then (k, v) else kv) obj
      else obj @ [(k, v)])"

text \<open>JavaScript truthiness, as used by \<open>rev && ...\<close>.\<close>

fun truthy :: "jsval \<Rightarrow> bool" where
  "truthy JUndefined = False"
| "truthy JNull = False"
| "truthy (JBool b) = b"
| "truthy (JNum n) = (n \<noteq> 0)"
| "truthy (JStr s) = (s \<noteq> [])"
| "truthy (JRef a) = True"

section \<open>The replication state\<close>

text \<open>The values pushed into the six subjects of \<open>RxReplicationStateBase\<close>.\<close>

datatype emission =
    Received jsobj
  | Send jsobj
  | Error err
  | Canceled bool
  | Active bool
  | InitialReplicationComplete bool

text \<open>
  The calls the state makes on its collaborators (checkpoint store, handlers, storage,
  timers), in the order they are made.
\<close>

datatype call =
    RequestIdlePromise
  | GetChangesSinceLastPushSequence string int
  | PushHandler "jsobj list"
  | SetLastPushSequence string int
  | GetLastPullDocument string
  | PullHandler "jsobj option"
  | HandleDocumentsFromRemote "jsobj list"
  | SetLastPullDocument string jsobj
  | SetTimeoutRun int
  | Unsubscribe

text \<open>
  Where the cycle in flight is suspended. Every constructor but \<open>NoCycle\<close> and
  \<open>Failed\<close> is one \<open>await\<close> of the source. The flag \<open>outer\<close> says that the
  suspended \<open>runPush\<close>/\<open>runPull\<close> is the call made by \<open>_run\<close> and not one of
  its recursive calls (whose result the caller drops before it returns \<open>true\<close>).
  \<open>Failed\<close>: the promise chain \<open>runningPromise\<close> is rejected.
\<close>

datatype pc =
    NoCycle
  | AwaitIdle
  | AwaitChanges bool
  | AwaitPushHandler bool "jsobj list" nat int
  | AwaitSetLastPushSequence bool nat
  | AwaitLastPullDocument bool
  | AwaitPullHandler bool
  | AwaitHandleDocs bool "jsobj list" bool
  | AwaitSetLastPullDocument bool bool
  | AwaitRun bool
  | Failed

text \<open>
  The options of the replication as the state reads them: \<open>pull\<close> says whether a
  pull handler is configured, \<open>push\<close> holds the push options when a push handler is,
  and \<open>batchSize\<close> is \<open>None\<close> when the option is absent. The dev-mode flag, the
  schema validation (\<open>Some e\<close> when it throws \<open>e\<close>) and
  \<open>wasRevisionfromPullReplication\<close> belong to modules outside these sources and are
  taken as given.
\<close>

record push_options =
  batchSize :: "int option"

record config =
  replicationIdentifier :: string
  pull :: bool
  push :: "push_options option"
  live :: bool
  retryTime :: int
  isDevMode :: bool
  schemaValidate :: "jsobj \<Rightarrow> err option"
  wasRevisionfromPullReplication :: "string \<Rightarrow> jsval \<Rightarrow> bool"

text \<open>
  The state: the \<open>destroyed\<close> flag of the collection; the current values of the
  three behaviour subjects; \<open>runQueueCount\<close> and \<open>runCount\<close>; whether the change
  event subscription in \<open>subs\<close> is active; the number of retry timers set and not
  yet fired; the \<open>retryOnFail\<close> arguments of the callbacks chained on
  \<open>runningPromise\<close> that have not started, in order; the \<open>retryOnFail\<close> of the
  cycle in flight and where it is suspended; everything emitted and every collaborator
  call made so far, latest last.
\<close>

record rstate =
  destroyed :: bool
  canceled :: bool
  active :: bool
  initialReplicationComplete :: bool
  runQueueCount :: int
  runCount :: nat
  subscribed :: bool
  timers :: nat
  chain :: "bool list"
  retryOnFail :: bool
  pc :: pc
  emitted :: "emission list"
  calls :: "call list"

definition emit :: "emission \<Rightarrow> rstate \<Rightarrow> rstate" where
  "emit e s = s\<lparr>emitted := emitted s @ [e]\<rparr>"

definition doCall :: "call \<Rightarrow> rstate \<Rightarrow> rstate" where
  "doCall c s = s\<lparr>calls := calls s @ [c]\<rparr>"

definition isStopped :: "config \<Rightarrow> rstate \<Rightarrow> bool" where
  "isStopped cfg s =
     (if destroyed s then True
      else if \<not> live cfg \<and> initialReplicationComplete s then True
      else if canceled s then True
      else False)"

text \<open>\<open>cancel()\<close>; the first component is the value the returned promise resolves to.\<close>

definition cancel :: "config \<Rightarrow> rstate \<Rightarrow> bool \<times> rstate" where
  "cancel cfg s =
     (if isStopped cfg s then (False, s)
      else (True,
        emit (Canceled True)
          ((if subscribed s then doCall Unsubscribe s else s)
             \<lparr>subscribed := False, canceled := True\<rparr>)))"

text \<open>
  \<open>run(retryOnFail)\<close>, the part that runs at the call: the callback is chained onto
  \<open>runningPromise\<close>, it starts when every callback chained before it has finished.
\<close>

definition run :: "config \<Rightarrow> bool \<Rightarrow> rstate \<Rightarrow> rstate" where
  "run cfg r s =
     (if isStopped cfg s then s
      else if runQueueCount s > 2 then s
      else s\<lparr>runQueueCount := runQueueCount s + 1, chain := chain s @ [r]\<rparr>)"

subsection \<open>One cycle\<close>

definition returnFromRun :: "bool \<Rightarrow> rstate \<Rightarrow> rstate" where
  "returnFromRun willRetry s = s\<lparr>pc := AwaitRun willRetry\<rparr>"

definition setTimeoutRun :: "config \<Rightarrow> rstate \<Rightarrow> rstate" where
  "setTimeoutRun cfg s = doCall (SetTimeoutRun (retryTime cfg)) (s\<lparr>timers := Suc (timers s)\<rparr>)"

text \<open>\<open>_run\<close> after \<open>const ok = await this.runPull()\<close>.\<close>

definition afterRunPull :: "config \<Rightarrow> bool \<Rightarrow> rstate \<Rightarrow> rstate" where
  "afterRunPull cfg ok s =
     (if \<not> ok \<and> retryOnFail s then returnFromRun True (setTimeoutRun cfg s)
      else returnFromRun False s)"

text \<open>
  A call of \<open>runPull\<close> returns \<open>res\<close>: the call made by \<open>_run\<close> hands it to
  \<open>_run\<close>; a recursive call hands it to its caller, which returns \<open>true\<close>, and so
  does every caller up to \<open>_run\<close>.
\<close>

definition retRunPull :: "config \<Rightarrow> bool \<Rightarrow> bool \<Rightarrow> rstate \<Rightarrow> rstate" where
  "retRunPull cfg outer res s = afterRunPull cfg (if outer then res else True) s"

definition runPull :: "config \<Rightarrow> bool \<Rightarrow> rstate \<Rightarrow> rstate" where
  "runPull cfg outer s =
     (if \<not> pull cfg then s\<lparr>pc := Failed\<rparr>
      else if isStopped cfg s then retRunPull cfg outer False s
      else (doCall (GetLastPullDocument (replicationIdentifier cfg)) s)
             \<lparr>pc := AwaitLastPullDocument outer\<rparr>)"

definition pullSection :: "config \<Rightarrow> rstate \<Rightarrow> rstate" where
  "pullSection cfg s = (if pull cfg then runPull cfg True s else returnFromRun False s)"

text \<open>\<open>_run\<close> after \<open>const ok = await this.runPush()\<close>.\<close>

definition afterRunPush :: "config \<Rightarrow> bool \<Rightarrow> rstate \<Rightarrow> rstate" where
  "afterRunPush cfg ok s =
     (if \<not> ok \<and> retryOnFail s then returnFromRun True (setTimeoutRun cfg s)
      else pullSection cfg s)"

definition retRunPush :: "config \<Rightarrow> bool \<Rightarrow> bool \<Rightarrow> rstate \<Rightarrow> rstate" where
  "retRunPush cfg outer res s = afterRunPush cfg (if outer then res else True) s"

definition runPush :: "config \<Rightarrow> bool \<Rightarrow> rstate \<Rightarrow> rstate" where
  "runPush cfg outer s =
     (case push cfg of
        None \<Rightarrow> s\<lparr>pc := Failed\<rparr>
      | Some p \<Rightarrow>
          (let bs = (case batchSize p of
                       None \<Rightarrow> 5
                     | Some b \<Rightarrow> if b \<noteq> 0 then b else 5)
           in (doCall (GetChangesSinceLastPushSequence (replicationIdentifier cfg) bs) s)
                \<lparr>pc := AwaitChanges outer\<rparr>))"

definition pushSection :: "config \<Rightarrow> rstate \<Rightarrow> rstate" where
  "pushSection cfg s = (if push cfg \<noteq> None then runPush cfg True s else pullSection cfg s)"

text \<open>\<open>_run(retryOnFail)\<close> up to its first \<open>await\<close>.\<close>

definition runCycle :: "config \<Rightarrow> rstate \<Rightarrow> rstate" where
  "runCycle cfg s =
     (let s1 = s\<lparr>runCount := Suc (runCount s)\<rparr>
      in if initialReplicationComplete s1
         then (doCall RequestIdlePromise s1)\<lparr>pc := AwaitIdle\<rparr>
         else pushSection cfg s1)"

text \<open>The wire document built from the row of a local change.\<close>

definition toPushDoc :: "jsobj \<Rightarrow> jsobj" where
  "toPushDoc rowDoc =
     (let doc = rowDoc;
          doc1 = (if \<not> hasOwnProperty doc ''_deleted''
                  then setProp doc ''_deleted'' (JBool False) else doc);
          doc2 = deleteProp doc1 ''_rev'';
          doc3 = deleteProp doc2 ''_attachments''
      in doc3)"

text \<open>Schema validation of the pulled documents in dev-mode: the first error thrown.\<close>

fun validatePulled :: "(jsobj \<Rightarrow> err option) \<Rightarrow> jsobj list \<Rightarrow> err option" where
  "validatePulled v [] = None"
| "validatePulled v (d # ds) =
     (case v (deleteProp d ''_deleted'') of
        Some e \<Rightarrow> Some e
      | None \<Rightarrow> validatePulled v ds)"

subsection \<open>The event loop\<close>

text \<open>
  A change event of the collection: \<open>isLocal\<close> and the document data that
  \<open>getDocumentDataOfRxChangeEvent\<close> returns for it.
\<close>

record change_event =
  isLocal :: bool
  documentData :: jsobj

text \<open>
  What can happen next on the event loop. The first six come from outside the cycle:
  a call of \<open>run(retryOnFail)\<close>, a retry timer set by \<open>_run\<close> firing, an
  iteration of the interval loop, a call of \<open>cancel()\<close> (by the user or by the
  \<open>onDestroy\<close> hook of the constructor), the collection setting its \<open>destroyed\<close>
  flag, and a change event of the collection. \<open>Start\<close> is the callback chained by
  \<open>run\<close> being invoked; the others settle the promise the cycle in flight awaits,
  with the value the collaborator gives.

  JavaScript runs each of these to its next \<open>await\<close> without interruption, so one
  event is one step. The events may come in any order the state allows; the interval
  loop and the timers of the source produce some of these orders only. The wait for
  leadership comes before the state is constructed and is left out.
\<close>

datatype event =
    Run bool
  | RetryTimer
  | IntervalTick
  | Cancel
  | Destroy
  | ChangeEv change_event
  | Start
  | IdleGranted
  | Changes "(jsobj \<times> int) list" int
  | PushResolved
  | PushRejected err
  | PushSequenceSet
  | LastPullDocument "jsobj option"
  | PullResolved "jsobj list" bool
  | PullRejected err
  | DocumentsHandled
  | PullDocumentSet
  | Finish
  | Rejected

text \<open>
  The subscription on \<open>collection.$\<close> set up by \<open>replicateRxCollection\<close>; the first
  component says whether the handler called \<open>run()\<close>.
\<close>

definition changeEventsSub :: "config \<Rightarrow> rstate \<Rightarrow> change_event \<Rightarrow> bool \<times> rstate" where
  "changeEventsSub cfg s cE =
     (if isStopped cfg s then (False, s)
      else
        (let doc = documentData cE;
             rev = getProp doc ''_rev''
         in if truthy rev \<and>
               \<not> wasRevisionfromPullReplication cfg (replicationIdentifier cfg) rev
            then (True, run cfg True s)
            else (False, s)))"

text \<open>The \<open>filter(cE => !cE.isLocal)\<close> in front of the subscription.\<close>

definition onChangeEvent :: "config \<Rightarrow> rstate \<Rightarrow> change_event \<Rightarrow> bool \<times> rstate" where
  "onChangeEvent cfg s cE =
     (if subscribed s \<and> \<not> isLocal cE then changeEventsSub cfg s cE else (False, s))"

text \<open>One iteration of the interval loop of live mode, after \<open>promiseWait\<close>.\<close>

definition intervalTick :: "config \<Rightarrow> rstate \<Rightarrow> rstate" where
  "intervalTick cfg s =
     (if live cfg \<and> pull cfg then (if isStopped cfg s then s else run cfg False s) else s)"

text \<open>The callback that \<open>run\<close> chains, up to its \<open>await this._run(retryOnFail)\<close>.\<close>

definition startCycle :: "config \<Rightarrow> bool \<Rightarrow> rstate \<Rightarrow> rstate" where
  "startCycle cfg r s = runCycle cfg ((emit (Active True) (s\<lparr>active := True\<rparr>))\<lparr>retryOnFail := r\<rparr>)"

text \<open>The same callback after \<open>_run\<close> has returned \<open>willRetry\<close>.\<close>

definition finishCycle :: "bool \<Rightarrow> rstate \<Rightarrow> rstate" where
  "finishCycle willRetry s =
     (let s1 = emit (Active False) (s\<lparr>active := False\<rparr>);
          s2 = (if retryOnFail s1 \<and> \<not> willRetry \<and> initialReplicationComplete s1 = False
                then emit (InitialReplicationComplete True) (s1\<lparr>initialReplicationComplete := True\<rparr>)
                else s1)
      in s2\<lparr>runQueueCount := runQueueCount s2 - 1, pc := NoCycle\<rparr>)"

text \<open>\<open>runPush\<close> resumed with the result of \<open>getChangesSinceLastPushSequence\<close>.\<close>

definition pushChanges :: "bool \<Rightarrow> (jsobj \<times> int) list \<Rightarrow> int \<Rightarrow> rstate \<Rightarrow> rstate" where
  "pushChanges outer changedDocs lastSequence s =
     (let pushDocs = map (\<lambda>row. toPushDoc (fst row)) changedDocs
      in (doCall (PushHandler pushDocs) s)
           \<lparr>pc := AwaitPushHandler outer pushDocs (length changedDocs) lastSequence\<rparr>)"

text \<open>\<open>runPush\<close> after \<open>push.handler\<close> has resolved, and after it has thrown.\<close>

definition pushResolved :: "config \<Rightarrow> bool \<Rightarrow> jsobj list \<Rightarrow> nat \<Rightarrow> int \<Rightarrow> rstate \<Rightarrow> rstate" where
  "pushResolved cfg outer pushDocs batchLen lastSequence s =
     (let s1 = fold (\<lambda>pushDoc. emit (Send pushDoc)) pushDocs s
      in (doCall (SetLastPushSequence (replicationIdentifier cfg) lastSequence) s1)
           \<lparr>pc := AwaitSetLastPushSequence outer batchLen\<rparr>)"

definition pushRejected :: "config \<Rightarrow> bool \<Rightarrow> err \<Rightarrow> rstate \<Rightarrow> rstate" where
  "pushRejected cfg outer e s = retRunPush cfg outer False (emit (Error e) s)"

definition pushSequenceSet :: "config \<Rightarrow> bool \<Rightarrow> nat \<Rightarrow> rstate \<Rightarrow> rstate" where
  "pushSequenceSet cfg outer batchLen s =
     (if batchLen \<noteq> 0 then runPush cfg False s else retRunPush cfg outer True s)"

text \<open>\<open>runPull\<close> after \<open>pull.handler\<close> has resolved, and after it has thrown.\<close>

definition pullResolved :: "config \<Rightarrow> bool \<Rightarrow> jsobj list \<Rightarrow> bool \<Rightarrow> rstate \<Rightarrow> rstate" where
  "pullResolved cfg outer pulledDocuments hasMoreDocuments s =
     (if length pulledDocuments = 0 then retRunPull cfg outer True s
      else
        (case (if isDevMode cfg then validatePulled (schemaValidate cfg) pulledDocuments else None) of
           Some e \<Rightarrow> retRunPull cfg outer False (emit (Error e) s)
         | None \<Rightarrow>
             if isStopped cfg s then retRunPull cfg outer True s
             else (doCall (HandleDocumentsFromRemote pulledDocuments) s)
                    \<lparr>pc := AwaitHandleDocs outer pulledDocuments hasMoreDocuments\<rparr>))"

definition pullRejected :: "config \<Rightarrow> bool \<Rightarrow> err \<Rightarrow> rstate \<Rightarrow> rstate" where
  "pullRejected cfg outer e s = retRunPull cfg outer False (emit (Error e) s)"

definition documentsHandled :: "config \<Rightarrow> bool \<Rightarrow> jsobj list \<Rightarrow> bool \<Rightarrow> rstate \<Rightarrow> rstate" where
  "documentsHandled cfg outer pulledDocuments hasMoreDocuments s =
     (let s1 = fold (\<lambda>doc. emit (Received doc)) pulledDocuments s
      in if length pulledDocuments = 0 then retRunPull cfg outer True s1
         else (doCall (SetLastPullDocument (replicationIdentifier cfg) (last pulledDocuments)) s1)
                \<lparr>pc := AwaitSetLastPullDocument outer hasMoreDocuments\<rparr>)"

definition pullDocumentSet :: "config \<Rightarrow> bool \<Rightarrow> bool \<Rightarrow> rstate \<Rightarrow> rstate" where
  "pullDocumentSet cfg outer hasMoreDocuments s =
     (if hasMoreDocuments then runPull cfg False s else retRunPull cfg outer True s)"

text \<open>
  One step of the event loop; \<open>None\<close> when the event cannot happen in this state (a
  promise that nothing awaits cannot settle, a timer that was never set cannot fire).
  \<open>Rejected\<close> is the rejection of an awaited promise that no \<open>try\<close> encloses.
\<close>

definition step :: "config \<Rightarrow> rstate \<Rightarrow> event \<Rightarrow> rstate option" where
  "step cfg s ev =
     (case ev of
        Run r \<Rightarrow> Some (run cfg r s)
      | RetryTimer \<Rightarrow>
          (if timers s = 0 then None else Some (run cfg True (s\<lparr>timers := timers s - 1\<rparr>)))
      | IntervalTick \<Rightarrow> Some (intervalTick cfg s)
      | Cancel \<Rightarrow> Some (snd (cancel cfg s))
      | Destroy \<Rightarrow> Some (s\<lparr>destroyed := True\<rparr>)
      | ChangeEv cE \<Rightarrow> Some (snd (onChangeEvent cfg s cE))
      | Start \<Rightarrow>
          (case (pc s, chain s) of
             (NoCycle, r # rest) \<Rightarrow> Some (startCycle cfg r (s\<lparr>chain := rest\<rparr>))
           | _ \<Rightarrow> None)
      | IdleGranted \<Rightarrow>
          (case pc s of AwaitIdle \<Rightarrow> Some (pushSection cfg s) | _ \<Rightarrow> None)
      | Changes changedDocs lastSequence \<Rightarrow>
          (case pc s of
             AwaitChanges outer \<Rightarrow> Some (pushChanges outer changedDocs lastSequence s)
           | _ \<Rightarrow> None)
      | PushResolved \<Rightarrow>
          (case pc s of
             AwaitPushHandler outer pushDocs batchLen lastSequence \<Rightarrow>
               Some (pushResolved cfg outer pushDocs batchLen lastSequence s)
           | _ \<Rightarrow> None)
      | PushRejected e \<Rightarrow>
          (case pc s of
             AwaitPushHandler outer pushDocs batchLen lastSequence \<Rightarrow>
               Some (pushRejected cfg outer e s)
           | _ \<Rightarrow> None)
      | PushSequenceSet \<Rightarrow>
          (case pc s of
             AwaitSetLastPushSequence outer batchLen \<Rightarrow> Some (pushSequenceSet cfg outer batchLen s)
           | _ \<Rightarrow> None)
      | LastPullDocument latestDocument \<Rightarrow>
          (case pc s of
             AwaitLastPullDocument outer \<Rightarrow>
               Some ((doCall (PullHandler latestDocument) s)\<lparr>pc := AwaitPullHandler outer\<rparr>)
           | _ \<Rightarrow> None)
      | PullResolved pulledDocuments hasMoreDocuments \<Rightarrow>
          (case pc s of
             AwaitPullHandler outer \<Rightarrow>
               Some (pullResolved cfg outer pulledDocuments hasMoreDocuments s)
           | _ \<Rightarrow> None)
      | PullRejected e \<Rightarrow>
          (case pc s of
             AwaitPullHandler outer \<Rightarrow> Some (pullRejected cfg outer e s)
           | _ \<Rightarrow> None)
      | DocumentsHandled \<Rightarrow>
          (case pc s of
             AwaitHandleDocs outer pulledDocuments hasMoreDocuments \<Rightarrow>
               Some (documentsHandled cfg outer pulledDocuments hasMoreDocuments s)
           | _ \<Rightarrow> None)
      | PullDocumentSet \<Rightarrow>
          (case pc s of
             AwaitSetLastPullDocument outer hasMoreDocuments \<Rightarrow>
               Some (pullDocumentSet cfg outer hasMoreDocuments s)
           | _ \<Rightarrow> None)
      | Finish \<Rightarrow>
          (case pc s of AwaitRun willRetry \<Rightarrow> Some (finishCycle willRetry s) | _ \<Rightarrow> None)
      | Rejected \<Rightarrow>
          (case pc s of
             AwaitIdle \<Rightarrow> Some (s\<lparr>pc := Failed\<rparr>)
           | AwaitChanges outer \<Rightarrow> Some (s\<lparr>pc := Failed\<rparr>)
           | AwaitSetLastPushSequence outer batchLen \<Rightarrow> Some (s\<lparr>pc := Failed\<rparr>)
           | AwaitLastPullDocument outer \<Rightarrow> Some (s\<lparr>pc := Failed\<rparr>)
           | AwaitHandleDocs outer pulledDocuments hasMoreDocuments \<Rightarrow> Some (s\<lparr>pc := Failed\<rparr>)
           | AwaitSetLastPullDocument outer hasMoreDocuments \<Rightarrow> Some (s\<lparr>pc := Failed\<rparr>)
           | _ \<Rightarrow> None))"

fun exec :: "config \<Rightarrow> rstate \<Rightarrow> event list \<Rightarrow> rstate option" where
  "exec cfg s [] = Some s"
| "exec cfg s (ev # evs) = (case step cfg s ev of None \<Rightarrow> None | Some s' \<Rightarrow> exec cfg s' evs)"

text \<open>The state as the constructor of \<open>RxReplicationStateBase\<close> leaves it.\<close>

definition newState :: rstate where
  "newState =
     \<lparr>destroyed = False, canceled = False, active = False, initialReplicationComplete = False,
      runQueueCount = 0, runCount = 0, subscribed = False, timers = 0, chain = [],
      retryOnFail = True, pc = NoCycle, emitted = [], calls = []\<rparr>"

text \<open>
  \<open>replicateRxCollection\<close> on a collection that is not destroyed: the state it returns,
  with the first \<open>run()\<close> chained and, in live mode with push, the subscription made.
\<close>

definition replicateRxCollection :: "config \<Rightarrow> rstate" where
  "replicateRxCollection cfg =
     (let replicationState = run cfg True newState
      in if live cfg \<and> push cfg \<noteq> None then replicationState\<lparr>subscribed := True\<rparr>
         else replicationState)"

section \<open>Applying pulled documents\<close>

text \<open>
  \<open>handleDocumentsFromRemote\<close> mutates the clones it makes, so documents live in a
  store here: an address is an index into the list of objects.
\<close>

type_synonym heap = "jsobj list"

text \<open>
  Modelled from the spec: \<open>flatClone\<close> of \<open>util\<close> is not among the sources; the
  spec calls it a shallow clone. The clone is a new object with the same own properties.
\<close>

definition flatClone :: "heap \<Rightarrow> nat \<Rightarrow> heap \<times> nat" where
  "flatClone h a = (h @ [h ! a], length h)"

text \<open>
  Modelled from the spec: the storage instance is a collaborator; its
  \<open>findDocumentsById(ids, true)\<close> returns the stored documents with these ids, keyed
  by id.
\<close>

definition findDocumentsById :: "(jsval \<times> jsobj) list \<Rightarrow> jsval list \<Rightarrow> (jsval \<times> jsobj) list" where
  "findDocumentsById storage ids = filter (\<lambda>kv. fst kv \<in> set ids) storage"

text \<open>
  A JavaScript number as the height of a revision: a whole number, \<open>NaN\<close> (what
  parsing gives for a revision without a height), or some other double, that is an
  infinity or a fraction (the index only tells these apart).
\<close>

datatype jsnumber = Whole int | NaN | OtherNumber nat

text \<open>
  \<open>Number.isSafeInteger\<close>: the whole numbers below \<open>2^53\<close> in size. Each of them
  is a double, and so is the result of adding 1 to it, so that on them JavaScript's
  \<open>+ 1\<close> is the addition of whole numbers. From \<open>2^53\<close> on the sum is rounded to a
  double (\<open>2^53 + 1\<close> is \<open>2^53\<close>).
\<close>

definition isSafeInteger :: "int \<Rightarrow> bool" where
  "isSafeInteger n = (abs n < 2 ^ 53)"

text \<open>
  What \<open>handleDocumentsFromRemote\<close> takes from the collection and from modules that are
  not among the sources: the schema's primary path and the two revision helpers. The
  last two fields are JavaScript's \<open>x + 1\<close> and its conversion of a number to a
  string where this theory does not compute them: on the doubles that are not whole
  numbers and on the whole numbers outside the safe range.
\<close>

record revision_env =
  primaryPath :: string
  createRevisionForPulledDocument :: "string \<Rightarrow> jsobj \<Rightarrow> string"
  getHeightOfRevision :: "jsval \<Rightarrow> jsnumber"
  plusOneOutsideSafe :: "jsnumber \<Rightarrow> jsnumber"
  toStringOutsideSafe :: "jsnumber \<Rightarrow> string"

text \<open>The decimal digits of a whole number, with its sign.\<close>

function natToString :: "nat \<Rightarrow> string" where
  "natToString n =
     (if n < 10 then [''0123456789'' ! n]
      else natToString (n div 10) @ [''0123456789'' ! (n mod 10)])"
  by pat_completeness auto
termination
  by (relation "measure id") auto

declare natToString.simps [simp del]

definition numberToString :: "int \<Rightarrow> string" where
  "numberToString i = (if i < 0 then ''-'' @ natToString (nat (- i)) else natToString (nat i))"

text \<open>
  \<open>hasHeight + 1\<close> on JavaScript numbers: exact on the safe integers, \<open>NaN\<close> on
  \<open>NaN\<close>, and as given elsewhere.
\<close>

definition jsPlusOne :: "revision_env \<Rightarrow> jsnumber \<Rightarrow> jsnumber" where
  "jsPlusOne env x =
     (case x of
        Whole n \<Rightarrow> if isSafeInteger n then Whole (n + 1) else plusOneOutsideSafe env x
      | NaN \<Rightarrow> NaN
      | OtherNumber k \<Rightarrow> plusOneOutsideSafe env x)"

text \<open>
  The string that \<open>newRevisionHeight + '-'\<close> starts with: the decimal digits of a
  whole number up to \<open>2^53\<close> in size (the largest sum of a safe integer and 1),
  \<open>NaN\<close> for \<open>NaN\<close>, and as given elsewhere.
\<close>

definition jsToString :: "revision_env \<Rightarrow> jsnumber \<Rightarrow> string" where
  "jsToString env x =
     (case x of
        Whole n \<Rightarrow> if abs n \<le> 2 ^ 53 then numberToString n else toStringOutsideSafe env x
      | NaN \<Rightarrow> ''NaN''
      | OtherNumber k \<Rightarrow> toStringOutsideSafe env x)"

text \<open>
  The revision given to one pulled document: the body of the loop from
  \<open>createRevisionForPulledDocument\<close> to the \<open>if\<close> on the locally stored state.
\<close>

definition pulledRevision ::
  "string \<Rightarrow> revision_env \<Rightarrow> jsobj option \<Rightarrow> jsobj \<Rightarrow> string" where
  "pulledRevision ident env docStateInLocalStorageInstance doc =
     (let newRevision = createRevisionForPulledDocument env ident doc
      in case docStateInLocalStorageInstance of
           Some st \<Rightarrow>
             (let hasHeight = getHeightOfRevision env (getProp st ''_rev'');
                  newRevisionHeight = jsPlusOne env hasHeight
              in jsToString env newRevisionHeight @ ''-'' @ newRevision)
         | None \<Rightarrow> ''1-'' @ newRevision)"

text \<open>The \<open>for\<close> loop over the pulled documents; \<open>toStorageDocs\<close> is the accumulator.\<close>

fun tagDocs ::
  "string \<Rightarrow> revision_env \<Rightarrow> (jsval \<times> jsobj) list \<Rightarrow> nat list \<Rightarrow> heap \<Rightarrow> nat list
     \<Rightarrow> heap \<times> nat list" where
  "tagDocs ident env docsFromLocal [] h toStorageDocs = (h, toStorageDocs)"
| "tagDocs ident env docsFromLocal (originalDoc # docs) h toStorageDocs =
     (let (h1, doc) = flatClone h originalDoc;
          documentId = getProp (h1 ! doc) (primaryPath env);
          docStateInLocalStorageInstance = map_of docsFromLocal documentId;
          newRevision = pulledRevision ident env docStateInLocalStorageInstance (h1 ! doc);
          h2 = h1[doc := setProp (h1 ! doc) ''_rev'' (JStr newRevision)]
      in tagDocs ident env docsFromLocal docs h2 (toStorageDocs @ [doc]))"

text \<open>
  \<open>handleDocumentsFromRemote(docs)\<close>: the store afterwards, the tagged clones, and the
  documents that go through \<open>_handleToStorageInstance\<close> into \<open>bulkAddRevisions\<close>
  (\<open>None\<close> when it is not called).
\<close>

definition handleDocumentsFromRemote ::
  "string \<Rightarrow> revision_env \<Rightarrow> (jsval \<times> jsobj) list \<Rightarrow> heap \<Rightarrow> nat list
     \<Rightarrow> heap \<times> nat list \<times> jsobj list option" where
  "handleDocumentsFromRemote ident env storage h docs =
     (let docIds = map (\<lambda>doc. getProp (h ! doc) (primaryPath env)) docs;
          docsFromLocal = findDocumentsById storage docIds;
          (h', toStorageDocs) = tagDocs ident env docsFromLocal docs h []
      in (h', toStorageDocs,
          if length toStorageDocs > 0 then Some (map (\<lambda>doc. h' ! doc) toStorageDocs) else None))"

section \<open>Predicates used in the proofs and in the statements\<close>

text \<open>The emissions a suspended cycle makes when it is resumed.\<close>

fun isData :: "emission \<Rightarrow> bool" where
  "isData (Received d) = True"
| "isData (Send d) = True"
| "isData (Error e) = True"
| "isData x = False"

text \<open>The events that resume the cycle in flight at one of its awaits.\<close>

fun isCycleEvent :: "event \<Rightarrow> bool" where
  "isCycleEvent IdleGranted = True"
| "isCycleEvent (Changes cd ls) = True"
| "isCycleEvent PushResolved = True"
| "isCycleEvent (PushRejected e) = True"
| "isCycleEvent PushSequenceSet = True"
| "isCycleEvent (LastPullDocument d) = True"
| "isCycleEvent (PullResolved ds h) = True"
| "isCycleEvent (PullRejected e) = True"
| "isCycleEvent DocumentsHandled = True"
| "isCycleEvent PullDocumentSet = True"
| "isCycleEvent ev = False"

text \<open>The events that may call \<open>run\<close>.\<close>

fun isTrigger :: "event \<Rightarrow> bool" where
  "isTrigger (Run r) = True"
| "isTrigger RetryTimer = True"
| "isTrigger IntervalTick = True"
| "isTrigger (ChangeEv cE) = True"
| "isTrigger ev = False"

fun isPullCall :: "call \<Rightarrow> bool" where
  "isPullCall (GetLastPullDocument i) = True"
| "isPullCall (PullHandler d) = True"
| "isPullCall (HandleDocumentsFromRemote ds) = True"
| "isPullCall (SetLastPullDocument i d) = True"
| "isPullCall c = False"

fun isSend :: "emission \<Rightarrow> bool" where
  "isSend (Send d) = True"
| "isSend x = False"

fun isSetLastPushSequence :: "call \<Rightarrow> bool" where
  "isSetLastPushSequence (SetLastPushSequence i q) = True"
| "isSetLastPushSequence c = False"

text \<open>
  What resuming a cycle may change: it leaves the flags, the queue and the counters
  alone, emits documents and errors only, and never unsubscribes.
\<close>

definition cycleFrame :: "rstate \<Rightarrow> rstate \<Rightarrow> bool" where
  "cycleFrame s s' =
     (destroyed s' = destroyed s \<and> canceled s' = canceled s \<and> active s' = active s \<and>
      initialReplicationComplete s' = initialReplicationComplete s \<and>
      runQueueCount s' = runQueueCount s \<and> runCount s' = runCount s \<and>
      subscribed s' = subscribed s \<and> chain s' = chain s \<and> retryOnFail s' = retryOnFail s \<and>
      timers s \<le> timers s' \<and>
      (\<exists>es. emitted s' = emitted s @ es \<and> list_all isData es) \<and>
      (\<exists>cs. calls s' = calls s @ cs \<and> Unsubscribe \<notin> set cs))"

text \<open>What an event that may call \<open>run\<close> changes.\<close>

definition runEffect :: "config \<Rightarrow> rstate \<Rightarrow> rstate \<Rightarrow> bool" where
  "runEffect cfg s s' =
     (pc s' = pc s \<and> emitted s' = emitted s \<and> calls s' = calls s \<and> canceled s' = canceled s \<and>
      destroyed s' = destroyed s \<and> initialReplicationComplete s' = initialReplicationComplete s \<and>
      active s' = active s \<and> runCount s' = runCount s \<and> subscribed s' = subscribed s \<and>
      retryOnFail s' = retryOnFail s \<and>
      (chain s' = chain s \<and> runQueueCount s' = runQueueCount s \<or>
       \<not> isStopped cfg s \<and> runQueueCount s \<le> 2 \<and> (\<exists>r. chain s' = chain s @ [r]) \<and>
       runQueueCount s' = runQueueCount s + 1))"

text \<open>
  \<open>runQueueCount\<close> counts the callbacks chained on \<open>runningPromise\<close> that have not
  finished: those waiting and the one in flight.
\<close>

definition queueInv :: "rstate \<Rightarrow> bool" where
  "queueInv s =
     (runQueueCount s = int (length (chain s)) + (if pc s = NoCycle then 0 else 1) \<and>
      runQueueCount s \<le> 3)"

text \<open>A subject has emitted \<open>True\<close> once if its value is true and never otherwise, and never \<open>False\<close>.\<close>

definition onceInv :: "(bool \<Rightarrow> emission) \<Rightarrow> bool \<Rightarrow> rstate \<Rightarrow> bool" where
  "onceInv subject val s =
     (count_list (emitted s) (subject True) = (if val then 1 else 0) \<and>
      count_list (emitted s) (subject False) = 0)"

text \<open>No cycle is in flight, or the one in flight has returned from \<open>_run\<close>.\<close>

definition cycleOver :: "rstate \<Rightarrow> bool" where
  "cycleOver s = (case pc s of NoCycle \<Rightarrow> True | AwaitRun w \<Rightarrow> True | _ \<Rightarrow> False)"

text \<open>Nothing is emitted after \<open>canceled$\<close> has emitted \<open>true\<close>.\<close>

definition silentAfterCancel :: "emission list \<Rightarrow> bool" where
  "silentAfterCancel es =
     (case dropWhile (\<lambda>e. e \<noteq> Canceled True) es of [] \<Rightarrow> True | c # rest \<Rightarrow> rest = [])"

section \<open>Example configurations\<close>

definition pullLive :: config where
  "pullLive =
     \<lparr>replicationIdentifier = ''sync'', pull = True, push = None, live = True,
      retryTime = 5000, isDevMode = False, schemaValidate = (\<lambda>doc. None),
      wasRevisionfromPullReplication = (\<lambda>ident rev. rev = JStr (''1-'' @ ident))\<rparr>"

definition pushLive :: config where
  "pushLive =
     \<lparr>replicationIdentifier = ''sync'', pull = False, push = Some \<lparr>batchSize = None\<rparr>,
      live = True, retryTime = 5000, isDevMode = False, schemaValidate = (\<lambda>doc. None),
      wasRevisionfromPullReplication = (\<lambda>ident rev. rev = JStr (''1-'' @ ident))\<rparr>"

definition localWrite :: change_event where
  "localWrite = \<lparr>isLocal = False, documentData = [(''id'', JStr ''a''), (''_rev'', JStr ''2-f3a9'')]\<rparr>"

definition pulledWrite :: change_event where
  "pulledWrite = \<lparr>isLocal = False, documentData = [(''id'', JStr ''a''), (''_rev'', JStr ''1-sync'')]\<rparr>"

definition bothLive :: config where
  "bothLive =
     \<lparr>replicationIdentifier = ''sync'', pull = True, push = Some \<lparr>batchSize = Some 2\<rparr>,
      live = True, retryTime = 5000, isDevMode = False, schemaValidate = (\<lambda>doc. None),
      wasRevisionfromPullReplication = (\<lambda>ident rev. rev = JStr (''1-'' @ ident))\<rparr>"

definition localDoc :: jsobj where
  "localDoc =
     [(''id'', JStr ''a''), (''name'', JStr ''Alice''), (''_rev'', JStr ''2-f3a9''),
      (''_attachments'', JRef 0)]"

text \<open>A first cycle suspended at the push handler, and one suspended at the pull handler.\<close>

definition awaitingPush :: rstate where
  "awaitingPush =
     the (exec bothLive (replicateRxCollection bothLive) [Start, Changes [(localDoc, 7)] 7])"

definition awaitingPull :: rstate where
  "awaitingPull = the (exec pullLive (replicateRxCollection pullLive) [Start, LastPullDocument None])"

text \<open>The collection is destroyed before the first cycle has started.\<close>

definition destroyedState :: rstate where
  "destroyedState = the (exec pushLive (replicateRxCollection pushLive) [Destroy])"

text \<open>Event sequences of the examples, on a live replication that only pulls.\<close>

definition remoteDoc :: jsobj where
  "remoteDoc = [(''id'', JStr ''b''), (''name'', JStr ''Bob''), (''_deleted'', JBool False)]"

definition failedFirstCycle :: "event list" where
  "failedFirstCycle = [Start, LastPullDocument None, PullRejected ''offline'', Finish]"

definition intervalCycle :: "event list" where
  "intervalCycle =
     [IntervalTick, Start, LastPullDocument None, PullResolved [remoteDoc] False,
      DocumentsHandled, PullDocumentSet, Finish]"

definition cleanCycle :: "event list" where
  "cleanCycle =
     [Start, LastPullDocument None, PullResolved [remoteDoc] False, DocumentsHandled,
      PullDocumentSet]"

definition cancelMidCycle :: "event list" where
  "cancelMidCycle = [Start, Cancel, LastPullDocument None, PullResolved [] False, Finish]"

definition burst :: "event list" where
  "burst = [Start, Run True, Run True, Run True]"

definition drain :: "event list" where
  "drain =
     [LastPullDocument None, PullResolved [] False, Finish,
      Start, IdleGranted, LastPullDocument None, PullResolved [] False, Finish,
      Start, IdleGranted, LastPullDocument None, PullResolved [] False, Finish]"

definition startOnly :: "event list" where
  "startOnly = [Start]"

definition fourRuns :: "bool list" where
  "fourRuns = [True, True, True, True]"

text \<open>
  A pull of three documents: one is stored locally at height 9, one is not stored, and
  one is stored with a revision that has no height. No height of the example is outside
  the safe integers, so the last two fields of the environment are never consulted.
\<close>

definition remoteAlice :: jsobj where
  "remoteAlice = [(''id'', JStr ''a''), (''name'', JStr ''Alice''), (''_deleted'', JBool False)]"

definition remoteCarol :: jsobj where
  "remoteCarol = [(''id'', JStr ''c''), (''name'', JStr ''Carol''), (''_deleted'', JBool False)]"

definition exampleStorage :: "(jsval \<times> jsobj) list" where
  "exampleStorage =
     [(JStr ''a'', [(''id'', JStr ''a''), (''name'', JStr ''Al''), (''_rev'', JStr ''9-77aa'')]),
      (JStr ''c'', [(''id'', JStr ''c''), (''name'', JStr ''Cy''), (''_rev'', JStr ''broken'')])]"

definition exampleEnv :: revision_env where
  "exampleEnv =
     \<lparr>primaryPath = ''id'',
      createRevisionForPulledDocument =
        (\<lambda>ident doc. ident @ (case getProp doc ''name'' of JStr n \<Rightarrow> n | _ \<Rightarrow> [])),
      getHeightOfRevision = (\<lambda>rev. if rev = JStr ''9-77aa'' then Whole 9 else NaN),
      plusOneOutsideSafe = (\<lambda>x. x),
      toStringOutsideSafe = (\<lambda>x. ''Infinity'')\<rparr>"

section \<open>How one step changes the state\<close>

lemma cycleFrame_refl: "cycleFrame s s"
  by (simp add: cycleFrame_def)

lemma cycleFrame_trans:
  assumes st: "cycleFrame s t" and tu: "cycleFrame t u"
  shows "cycleFrame s u"
proof -
  from st obtain es cs where
    1: "emitted t = emitted s @ es" "list_all isData es" "calls t = calls s @ cs" "Unsubscribe \<notin> set cs"
    unfolding cycleFrame_def by blast
  from tu obtain es' cs' where
    2: "emitted u = emitted t @ es'" "list_all isData es'" "calls u = calls t @ cs'" "Unsubscribe \<notin> set cs'"
    unfolding cycleFrame_def by blast
  have e: "emitted u = emitted s @ (es @ es') \<and> list_all isData (es @ es')"
    using 1 2 by simp
  have c: "calls u = calls s @ (cs @ cs') \<and> Unsubscribe \<notin> set (cs @ cs')"
    using 1 2 by simp
  have f: "destroyed u = destroyed s \<and> canceled u = canceled s \<and> active u = active s \<and>
      initialReplicationComplete u = initialReplicationComplete s \<and>
      runQueueCount u = runQueueCount s \<and> runCount u = runCount s \<and>
      subscribed u = subscribed s \<and> chain u = chain s \<and> retryOnFail u = retryOnFail s \<and>
      timers s \<le> timers u"
    using st tu unfolding cycleFrame_def by simp
  show ?thesis
    unfolding cycleFrame_def using e c f by blast
qed

lemma cycleFrame_pc [simp]: "cycleFrame s (t\<lparr>pc := p\<rparr>) = cycleFrame s t"
  by (simp add: cycleFrame_def)

lemma cycleFrame_emit: "isData e \<Longrightarrow> cycleFrame s (emit e s)"
  by (simp add: cycleFrame_def emit_def)

lemma cycleFrame_doCall: "c \<noteq> Unsubscribe \<Longrightarrow> cycleFrame s (doCall c s)"
  by (simp add: cycleFrame_def doCall_def)

lemma cycleFrame_fold_emit: "(\<And>d. isData (f d)) \<Longrightarrow> cycleFrame s (fold (\<lambda>d. emit (f d)) ds s)"
proof (induction ds arbitrary: s)
  case Nil
  then show ?case by (simp add: cycleFrame_refl)
next
  case (Cons d ds)
  have "cycleFrame s (emit (f d) s)" using Cons.prems by (rule cycleFrame_emit)
  moreover have "cycleFrame (emit (f d) s) (fold (\<lambda>d. emit (f d)) ds (emit (f d) s))"
    using Cons.prems by (rule Cons.IH)
  ultimately show ?case by (simp add: cycleFrame_trans)
qed



lemma pc_emit [simp]: "pc (emit e s) = pc s" by (simp add: emit_def)
lemma pc_doCall [simp]: "pc (doCall c s) = pc s" by (simp add: doCall_def)

lemma returnFromRun_frame: "cycleFrame s (returnFromRun w s)" "pc (returnFromRun w s) = AwaitRun w"
  by (simp_all add: returnFromRun_def cycleFrame_refl)

lemma setTimeoutRun_frame: "cycleFrame s (setTimeoutRun cfg s)"
  by (simp add: setTimeoutRun_def cycleFrame_def doCall_def)

lemma afterRunPull_frame: "cycleFrame s (afterRunPull cfg ok s)" "pc (afterRunPull cfg ok s) \<noteq> NoCycle"
  by (auto simp: afterRunPull_def returnFromRun_def setTimeoutRun_frame cycleFrame_refl)

lemma retRunPull_frame: "cycleFrame s (retRunPull cfg outer res s)" "pc (retRunPull cfg outer res s) \<noteq> NoCycle"
  by (simp_all add: retRunPull_def afterRunPull_frame)

lemma runPull_frame: "cycleFrame s (runPull cfg outer s)" "pc (runPull cfg outer s) \<noteq> NoCycle"
  by (auto simp: runPull_def retRunPull_frame cycleFrame_refl cycleFrame_doCall)

lemma pullSection_frame: "cycleFrame s (pullSection cfg s)" "pc (pullSection cfg s) \<noteq> NoCycle"
  by (auto simp: pullSection_def runPull_frame returnFromRun_frame)

lemma afterRunPush_frame: "cycleFrame s (afterRunPush cfg ok s)" "pc (afterRunPush cfg ok s) \<noteq> NoCycle"
  by (auto simp: afterRunPush_def returnFromRun_def setTimeoutRun_frame pullSection_frame)

lemma retRunPush_frame: "cycleFrame s (retRunPush cfg outer res s)" "pc (retRunPush cfg outer res s) \<noteq> NoCycle"
  by (simp_all add: retRunPush_def afterRunPush_frame)

lemma runPush_frame: "cycleFrame s (runPush cfg outer s)" "pc (runPush cfg outer s) \<noteq> NoCycle"
  by (auto simp: runPush_def Let_def cycleFrame_refl cycleFrame_doCall split: option.splits)

lemma pushSection_frame: "cycleFrame s (pushSection cfg s)" "pc (pushSection cfg s) \<noteq> NoCycle"
  by (auto simp: pushSection_def runPush_frame pullSection_frame)

lemma pushChanges_frame: "cycleFrame s (pushChanges outer cd ls s)" "pc (pushChanges outer cd ls s) \<noteq> NoCycle"
  by (simp_all add: pushChanges_def Let_def cycleFrame_doCall)

lemma retRunPull_after_error: "cycleFrame s (retRunPull cfg outer res (emit (Error e) s))"
  by (rule cycleFrame_trans [OF cycleFrame_emit retRunPull_frame(1)]) simp

lemma retRunPush_after_error: "cycleFrame s (retRunPush cfg outer res (emit (Error e) s))"
  by (rule cycleFrame_trans [OF cycleFrame_emit retRunPush_frame(1)]) simp

lemma doCall_after_send:
  "c \<noteq> Unsubscribe \<Longrightarrow> cycleFrame s (doCall c (fold (\<lambda>d. emit (Send d)) ds s))"
  by (rule cycleFrame_trans [OF cycleFrame_fold_emit cycleFrame_doCall]) simp_all

lemma doCall_after_received:
  "c \<noteq> Unsubscribe \<Longrightarrow> cycleFrame s (doCall c (fold (\<lambda>d. emit (Received d)) ds s))"
  by (rule cycleFrame_trans [OF cycleFrame_fold_emit cycleFrame_doCall]) simp_all

lemma retRunPull_after_received:
  "cycleFrame s (retRunPull cfg outer res (fold (\<lambda>d. emit (Received d)) ds s))"
  by (rule cycleFrame_trans [OF cycleFrame_fold_emit retRunPull_frame(1)]) simp

lemma pushResolved_frame: "cycleFrame s (pushResolved cfg outer pd n ls s)" "pc (pushResolved cfg outer pd n ls s) \<noteq> NoCycle"
  by (simp_all add: pushResolved_def Let_def doCall_after_send doCall_after_received retRunPull_after_received)

lemma pushRejected_frame: "cycleFrame s (pushRejected cfg outer e s)" "pc (pushRejected cfg outer e s) \<noteq> NoCycle"
  by (simp_all add: pushRejected_def retRunPush_frame retRunPush_after_error)

lemma pushSequenceSet_frame: "cycleFrame s (pushSequenceSet cfg outer n s)" "pc (pushSequenceSet cfg outer n s) \<noteq> NoCycle"
  by (simp_all add: pushSequenceSet_def runPush_frame retRunPush_frame)

lemma pullResolved_frame: "cycleFrame s (pullResolved cfg outer ds h s)" "pc (pullResolved cfg outer ds h s) \<noteq> NoCycle"
  by (simp_all add: pullResolved_def retRunPull_frame cycleFrame_doCall retRunPull_after_error split: option.splits)

lemma pullRejected_frame: "cycleFrame s (pullRejected cfg outer e s)" "pc (pullRejected cfg outer e s) \<noteq> NoCycle"
  by (simp_all add: pullRejected_def retRunPull_frame retRunPull_after_error)

lemma documentsHandled_frame: "cycleFrame s (documentsHandled cfg outer ds h s)" "pc (documentsHandled cfg outer ds h s) \<noteq> NoCycle"
  by (simp_all add: documentsHandled_def Let_def retRunPull_frame doCall_after_send doCall_after_received retRunPull_after_received)

lemma pullDocumentSet_frame: "cycleFrame s (pullDocumentSet cfg outer h s)" "pc (pullDocumentSet cfg outer h s) \<noteq> NoCycle"
  by (simp_all add: pullDocumentSet_def runPull_frame retRunPull_frame)

lemmas frames = returnFromRun_frame afterRunPull_frame retRunPull_frame runPull_frame
  pullSection_frame afterRunPush_frame retRunPush_frame runPush_frame pushSection_frame
  pushChanges_frame pushResolved_frame pushRejected_frame pushSequenceSet_frame
  pullResolved_frame pullRejected_frame documentsHandled_frame pullDocumentSet_frame

lemma step_cycle_event:
  assumes "isCycleEvent ev" and "step cfg s ev = Some s'"
  shows "cycleFrame s s' \<and> pc s \<noteq> NoCycle \<and> pc s' \<noteq> NoCycle"
  using assms
  by (cases ev; cases "pc s") (auto simp: step_def frames cycleFrame_doCall)

lemma run_effect: "runEffect cfg s (run cfg r s)"
  by (simp add: runEffect_def run_def)

lemma run_effect_timers: "runEffect cfg s (run cfg r (s\<lparr>timers := t\<rparr>))"
  by (simp add: runEffect_def run_def isStopped_def)

lemma runEffect_refl: "runEffect cfg s s"
  by (simp add: runEffect_def)

lemma step_trigger:
  assumes "isTrigger ev" and "step cfg s ev = Some s'"
  shows "runEffect cfg s s'"
  using assms
  by (cases ev)
     (auto simp: step_def run_effect run_effect_timers runEffect_refl intervalTick_def
        onChangeEvent_def changeEventsSub_def Let_def split: if_splits)

lemma step_cancel:
  assumes "ev = Cancel" and "step cfg s ev = Some s'"
  shows "(isStopped cfg s \<and> s' = s) \<or>
     (\<not> isStopped cfg s \<and> canceled s' \<and> emitted s' = emitted s @ [Canceled True] \<and>
      pc s' = pc s \<and> chain s' = chain s \<and> runQueueCount s' = runQueueCount s \<and>
      initialReplicationComplete s' = initialReplicationComplete s \<and> active s' = active s \<and>
      runCount s' = runCount s \<and> destroyed s' = destroyed s \<and> \<not> subscribed s' \<and>
      retryOnFail s' = retryOnFail s)"
  using assms
  by (cases "isStopped cfg s"; cases "subscribed s")
     (auto simp: step_def cancel_def emit_def doCall_def)

lemma startCycle_frame:
  "cycleFrame ((emit (Active True) (s\<lparr>active := True\<rparr>))
                   \<lparr>retryOnFail := r, runCount := Suc (runCount s)\<rparr>) (startCycle cfg r s)"
  "pc (startCycle cfg r s) \<noteq> NoCycle"
  by (simp_all add: startCycle_def runCycle_def Let_def frames cycleFrame_doCall emit_def)

lemma step_start:
  assumes "ev = Start" and "step cfg s ev = Some s'"
  shows "\<exists>r rest. pc s = NoCycle \<and> chain s = r # rest \<and> pc s' \<noteq> NoCycle \<and>
     cycleFrame ((emit (Active True) (s\<lparr>chain := rest, active := True\<rparr>))
                   \<lparr>retryOnFail := r, runCount := Suc (runCount s)\<rparr>) s'"
proof -
  from assms obtain r rest where
    1: "pc s = NoCycle" "chain s = r # rest" "s' = startCycle cfg r (s\<lparr>chain := rest\<rparr>)"
    by (auto simp: step_def split: pc.splits list.splits)
  from startCycle_frame [where s = "s\<lparr>chain := rest\<rparr>" and r = r and cfg = cfg] 1 show ?thesis
    by (simp add: emit_def)
qed

lemma step_finish:
  assumes "ev = Finish" and "step cfg s ev = Some s'"
  shows "\<exists>w. pc s = AwaitRun w \<and> s' = finishCycle w s"
  using assms by (auto simp: step_def split: pc.splits)

lemma step_rejected:
  assumes "ev = Rejected" and "step cfg s ev = Some s'"
  shows "pc s \<noteq> NoCycle \<and> s' = s\<lparr>pc := Failed\<rparr>"
  using assms by (auto simp: step_def split: pc.splits)

lemma step_destroy: "ev = Destroy \<Longrightarrow> step cfg s ev = Some s' \<Longrightarrow> s' = s\<lparr>destroyed := True\<rparr>"
  by (simp add: step_def)

lemma event_kinds:
  "isTrigger ev \<or> isCycleEvent ev \<or> ev = Cancel \<or> ev = Destroy \<or> ev = Start \<or> ev = Finish \<or> ev = Rejected"
  by (cases ev) simp_all

lemma cycleFrame_fields:
  assumes "cycleFrame s s'"
  shows "destroyed s' = destroyed s" "canceled s' = canceled s" "active s' = active s"
    "initialReplicationComplete s' = initialReplicationComplete s"
    "runQueueCount s' = runQueueCount s" "runCount s' = runCount s"
    "subscribed s' = subscribed s" "chain s' = chain s" "retryOnFail s' = retryOnFail s"
  using assms by (simp_all add: cycleFrame_def)

lemma queueInv_step:
  assumes inv: "queueInv s" and st: "step cfg s ev = Some s'"
  shows "queueInv s'"
proof -
  consider "isTrigger ev" | "isCycleEvent ev" | "ev = Cancel" | "ev = Destroy" | "ev = Start"
    | "ev = Finish" | "ev = Rejected"
    using event_kinds by blast
  then show ?thesis
  proof cases
    case 1
    from step_trigger [OF 1 st] inv show ?thesis
      unfolding runEffect_def queueInv_def by (elim conjE disjE exE) simp_all
  next
    case 2
    from step_cycle_event [OF 2 st] have f: "cycleFrame s s'" and p: "pc s \<noteq> NoCycle" "pc s' \<noteq> NoCycle"
      by simp_all
    from cycleFrame_fields(5,8) [OF f] p inv show ?thesis
      by (simp add: queueInv_def)
  next
    case 3
    from step_cancel [OF 3 st] inv show ?thesis
      unfolding queueInv_def by (elim conjE disjE) simp_all
  next
    case 4
    from step_destroy [OF 4 st] inv show ?thesis
      by (simp add: queueInv_def)
  next
    case 5
    from step_start [OF 5 st] obtain r rest where
      s: "pc s = NoCycle" "chain s = r # rest" "pc s' \<noteq> NoCycle" and
      f: "cycleFrame ((emit (Active True) (s\<lparr>chain := rest, active := True\<rparr>))
                   \<lparr>retryOnFail := r, runCount := Suc (runCount s)\<rparr>) s'"
      by blast
    from cycleFrame_fields(5,8) [OF f] s inv show ?thesis
      by (simp add: queueInv_def emit_def)
  next
    case 6
    from step_finish [OF 6 st] inv show ?thesis
      by (auto simp: queueInv_def finishCycle_def Let_def emit_def)
  next
    case 7
    from step_rejected [OF 7 st] inv show ?thesis
      by (auto simp: queueInv_def)
  qed
qed

section \<open>Concrete states\<close>

lemmas eval_defs = step_def replicateRxCollection_def newState_def run_def cancel_def isStopped_def
  emit_def doCall_def returnFromRun_def setTimeoutRun_def afterRunPull_def
  retRunPull_def runPull_def pullSection_def afterRunPush_def retRunPush_def runPush_def
  pushSection_def runCycle_def startCycle_def finishCycle_def pushChanges_def pushResolved_def
  pushRejected_def pushSequenceSet_def pullResolved_def pullRejected_def documentsHandled_def
  pullDocumentSet_def intervalTick_def onChangeEvent_def changeEventsSub_def toPushDoc_def
  getProp_def setProp_def deleteProp_def hasOwnProperty_def Let_def

lemma awaitingPush_eq:
  "awaitingPush =
     \<lparr>destroyed = False, canceled = False, active = True, initialReplicationComplete = False,
      runQueueCount = 1, runCount = 1, subscribed = True, timers = 0, chain = [],
      retryOnFail = True,
      pc = AwaitPushHandler True [[(''id'', JStr ''a''), (''name'', JStr ''Alice''), (''_deleted'', JBool False)]] 1 7,
      emitted = [Active True],
      calls = [GetChangesSinceLastPushSequence ''sync'' 2,
               PushHandler [[(''id'', JStr ''a''), (''name'', JStr ''Alice''), (''_deleted'', JBool False)]]]\<rparr>"
  by (simp add: awaitingPush_def bothLive_def localDoc_def eval_defs)

lemma awaitingPull_eq:
  "awaitingPull =
     \<lparr>destroyed = False, canceled = False, active = True, initialReplicationComplete = False,
      runQueueCount = 1, runCount = 1, subscribed = False, timers = 0, chain = [],
      retryOnFail = True, pc = AwaitPullHandler True, emitted = [Active True],
      calls = [GetLastPullDocument ''sync'', PullHandler None]\<rparr>"
  by (simp add: awaitingPull_def pullLive_def eval_defs)

lemma destroyedState_eq:
  "destroyedState =
     \<lparr>destroyed = True, canceled = False, active = False, initialReplicationComplete = False,
      runQueueCount = 1, runCount = 0, subscribed = True, timers = 0, chain = [True],
      retryOnFail = True, pc = NoCycle, emitted = [], calls = []\<rparr>"
  by (simp add: destroyedState_def pushLive_def eval_defs)

section \<open>The stop predicate\<close>

text \<open>
  Claim C6: \<open>isStopped()\<close> returns true if and only if the collection is destroyed, or
  the state is not live and the initial replication is complete, or the state has been
  canceled.
\<close>

theorem isStopped_iff:
  "isStopped cfg s \<longleftrightarrow>
     destroyed s \<or> (\<not> live cfg \<and> initialReplicationComplete s) \<or> canceled s"
  by (simp add: isStopped_def)

section \<open>The change event subscription\<close>

text \<open>
  Claim C1, as stated, fails on a destroyed collection: the subscription is still there
  (\<open>cancel\<close> returns before it unsubscribes when the state is already stopped), the
  event is not local, its revision is present and not pull-tagged, and the handler
  returns at its \<open>isStopped()\<close> guard without calling \<open>run()\<close>.
\<close>

theorem change_event_counterexample:
  "\<not> isLocal localWrite \<and> subscribed destroyedState \<and>
   truthy (getProp (documentData localWrite) ''_rev'') \<and>
   \<not> wasRevisionfromPullReplication pushLive (replicationIdentifier pushLive)
        (getProp (documentData localWrite) ''_rev'') \<and>
   fst (onChangeEvent pushLive destroyedState localWrite) = False"
  by (simp add: destroyedState_eq localWrite_def pushLive_def onChangeEvent_def
      changeEventsSub_def isStopped_def getProp_def)

text \<open>
  Claim C1, amended: in live mode with push (the subscription is active), for a non-local
  change event the handler calls \<open>run()\<close> exactly when the state is not stopped and the
  document's \<open>_rev\<close> is present and not a pull-tagged revision for this identity. So a
  pull-tagged revision never triggers \<open>run()\<close>, and a present revision that is not
  pull-tagged triggers it unless the state is stopped.
\<close>

theorem change_event_calls_run:
  assumes "subscribed s" and "\<not> isLocal cE"
  shows "fst (onChangeEvent cfg s cE) =
           (\<not> isStopped cfg s \<and> truthy (getProp (documentData cE) ''_rev'') \<and>
            \<not> wasRevisionfromPullReplication cfg (replicationIdentifier cfg)
                 (getProp (documentData cE) ''_rev'')) \<and>
         snd (onChangeEvent cfg s cE) =
           (if fst (onChangeEvent cfg s cE) then run cfg True s else s)"
  using assms by (simp add: onChangeEvent_def changeEventsSub_def Let_def)

theorem change_event_calls_run_witness:
  "fst (onChangeEvent pushLive (replicateRxCollection pushLive) localWrite) = True \<and>
   chain (snd (onChangeEvent pushLive (replicateRxCollection pushLive) localWrite)) = [True, True] \<and>
   fst (onChangeEvent pushLive (replicateRxCollection pushLive) pulledWrite) = False \<and>
   chain (snd (onChangeEvent pushLive (replicateRxCollection pushLive) pulledWrite)) = [True]"
  using change_event_calls_run [of "replicateRxCollection pushLive" localWrite pushLive]
    change_event_calls_run [of "replicateRxCollection pushLive" pulledWrite pushLive]
  by (simp add: localWrite_def pulledWrite_def pushLive_def replicateRxCollection_def
      newState_def run_def isStopped_def getProp_def)

section \<open>Push\<close>

text \<open>
  Claim C10: when \<open>push\<close> is configured but \<open>push.batchSize\<close> is absent (or falsy,
  that is 0), \<open>runPush()\<close> requests changes from the change collector with the default
  batch size 5.
\<close>

theorem runPush_default_batchSize:
  assumes "push cfg = Some p" and "batchSize p = None \<or> batchSize p = Some 0"
  shows "runPush cfg outer s =
           (doCall (GetChangesSinceLastPushSequence (replicationIdentifier cfg) 5) s)
             \<lparr>pc := AwaitChanges outer\<rparr>"
  using assms by (auto simp: runPush_def)

theorem runPush_default_batchSize_witness:
  "calls (runPush pushLive True newState) = [GetChangesSinceLastPushSequence ''sync'' 5] \<and>
   calls (runPush (pushLive\<lparr>push := Some \<lparr>batchSize = Some 0\<rparr>\<rparr>) False newState) =
     [GetChangesSinceLastPushSequence ''sync'' 5]"
  using runPush_default_batchSize [of pushLive "\<lparr>batchSize = None\<rparr>" True newState]
    runPush_default_batchSize [of "pushLive\<lparr>push := Some \<lparr>batchSize = Some 0\<rparr>\<rparr>"
      "\<lparr>batchSize = Some 0\<rparr>" False newState]
  by (simp add: pushLive_def newState_def doCall_def)

lemma retRunPush_False_effect:
  "emitted (retRunPush cfg outer False s) = emitted s \<and>
   filter isSetLastPushSequence (calls (retRunPush cfg outer False s)) =
     filter isSetLastPushSequence (calls s) \<and>
   pc (retRunPush cfg outer False s) \<noteq> Failed"
  by (simp add: retRunPush_def afterRunPush_def pullSection_def runPull_def retRunPull_def
      afterRunPull_def returnFromRun_def setTimeoutRun_def doCall_def)

lemma retRunPull_effect:
  "emitted (retRunPull cfg outer res s) = emitted s \<and> pc (retRunPull cfg outer res s) \<noteq> Failed"
  by (simp add: retRunPull_def afterRunPull_def returnFromRun_def setTimeoutRun_def doCall_def)

text \<open>
  Claim C8: if \<open>push.handler\<close> throws, the error is emitted on \<open>error$\<close>, that call of
  \<open>runPush()\<close> returns false, no document is emitted on \<open>send$\<close> for the batch and
  \<open>lastPushSequence\<close> is not persisted for it; an error thrown by the push handler or
  by the pull handler does not reject the promise of \<open>run()\<close>.
\<close>

theorem handler_failure_contained:
  "(pc s = AwaitPushHandler outer pushDocs n lastSequence \<longrightarrow>
      (\<exists>s'. step cfg s (PushRejected e) = Some s' \<and>
         s' = retRunPush cfg outer False (emit (Error e) s) \<and>
         emitted s' = emitted s @ [Error e] \<and>
         filter isSend (emitted s') = filter isSend (emitted s) \<and>
         filter isSetLastPushSequence (calls s') = filter isSetLastPushSequence (calls s) \<and>
         pc s' \<noteq> Failed)) \<and>
   (pc s = AwaitPullHandler outer \<longrightarrow>
      (\<exists>s'. step cfg s (PullRejected e) = Some s' \<and>
         s' = retRunPull cfg outer False (emit (Error e) s) \<and>
         emitted s' = emitted s @ [Error e] \<and> pc s' \<noteq> Failed))"
proof (intro conjI impI)
  assume at: "pc s = AwaitPushHandler outer pushDocs n lastSequence"
  let ?t = "emit (Error e) s"
  let ?s' = "retRunPush cfg outer False ?t"
  have st: "step cfg s (PushRejected e) = Some ?s'"
    using at by (simp add: step_def pushRejected_def)
  have em: "emitted ?s' = emitted s @ [Error e]"
    using retRunPush_False_effect [of cfg outer ?t] by (simp add: emit_def)
  have ca: "filter isSetLastPushSequence (calls ?s') = filter isSetLastPushSequence (calls s)"
    using retRunPush_False_effect [of cfg outer ?t] by (simp add: emit_def)
  have pcf: "pc ?s' \<noteq> Failed"
    using retRunPush_False_effect [of cfg outer ?t] by simp
  from st em ca pcf
  show "\<exists>s'. step cfg s (PushRejected e) = Some s' \<and>
         s' = retRunPush cfg outer False (emit (Error e) s) \<and>
         emitted s' = emitted s @ [Error e] \<and>
         filter isSend (emitted s') = filter isSend (emitted s) \<and>
         filter isSetLastPushSequence (calls s') = filter isSetLastPushSequence (calls s) \<and>
         pc s' \<noteq> Failed"
    by simp
next
  assume at: "pc s = AwaitPullHandler outer"
  let ?t = "emit (Error e) s"
  let ?s' = "retRunPull cfg outer False ?t"
  have st: "step cfg s (PullRejected e) = Some ?s'"
    using at by (simp add: step_def pullRejected_def)
  have em: "emitted ?s' = emitted s @ [Error e]"
    using retRunPull_effect [of cfg outer False ?t] by (simp add: emit_def)
  have pcf: "pc ?s' \<noteq> Failed"
    using retRunPull_effect [of cfg outer False ?t] by simp
  from st em pcf
  show "\<exists>s'. step cfg s (PullRejected e) = Some s' \<and>
         s' = retRunPull cfg outer False (emit (Error e) s) \<and>
         emitted s' = emitted s @ [Error e] \<and> pc s' \<noteq> Failed"
    by simp
qed

theorem handler_failure_contained_witness:
  "pc awaitingPush =
     AwaitPushHandler True
       [[(''id'', JStr ''a''), (''name'', JStr ''Alice''), (''_deleted'', JBool False)]] 1 7 \<and>
   (\<exists>s'. step bothLive awaitingPush (PushRejected ''offline'') = Some s' \<and>
      emitted s' = [Active True, Error ''offline''] \<and>
      filter isSend (emitted s') = [] \<and>
      filter isSetLastPushSequence (calls s') = [] \<and> pc s' \<noteq> Failed) \<and>
   pc awaitingPull = AwaitPullHandler True \<and>
   (\<exists>s'. step pullLive awaitingPull (PullRejected ''offline'') = Some s' \<and>
      emitted s' = [Active True, Error ''offline''] \<and> pc s' \<noteq> Failed)"
proof -
  have 1: "pc awaitingPush =
     AwaitPushHandler True
       [[(''id'', JStr ''a''), (''name'', JStr ''Alice''), (''_deleted'', JBool False)]] 1 7"
    by (simp add: awaitingPush_eq)
  have 2: "pc awaitingPull = AwaitPullHandler True"
    by (simp add: awaitingPull_eq)
  have 3: "emitted awaitingPush = [Active True]" "calls awaitingPush =
      [GetChangesSinceLastPushSequence ''sync'' 2,
       PushHandler [[(''id'', JStr ''a''), (''name'', JStr ''Alice''), (''_deleted'', JBool False)]]]"
    "emitted awaitingPull = [Active True]"
    by (simp_all add: awaitingPush_eq awaitingPull_eq)
  from handler_failure_contained [of awaitingPush True _ 1 7 bothLive "''offline''"]
    handler_failure_contained [of awaitingPull True _ _ _ pullLive "''offline''"] 1 2 3
  show ?thesis by auto
qed

lemma step_cycle_event_enabled:
  assumes "isCycleEvent ev" and "step cfg s ev = Some s'"
  shows "\<not> cycleOver s"
  using assms by (cases ev; cases "pc s") (simp_all add: step_def cycleOver_def)

lemma step_rejected_enabled:
  assumes "ev = Rejected" and "step cfg s ev = Some s'"
  shows "\<not> cycleOver s"
  using assms by (cases "pc s") (simp_all add: step_def cycleOver_def)

lemma step_cancel_calls:
  assumes "ev = Cancel" and "step cfg s ev = Some s'"
  shows "filter isPullCall (calls s') = filter isPullCall (calls s)"
  using assms by (auto simp: step_def cancel_def emit_def doCall_def)

lemma cycleOver_step:
  assumes over: "cycleOver s" and ns: "ev \<noteq> Start" and st: "step cfg s ev = Some s'"
  shows "cycleOver s' \<and> filter isPullCall (calls s') = filter isPullCall (calls s)"
proof -
  consider "isTrigger ev" | "isCycleEvent ev" | "ev = Cancel" | "ev = Destroy" | "ev = Finish"
    | "ev = Rejected"
    using event_kinds [of ev] ns by blast
  then show ?thesis
  proof cases
    case 1
    from step_trigger [OF 1 st] over show ?thesis
      by (simp add: runEffect_def cycleOver_def)
  next
    case 2
    from step_cycle_event_enabled [OF 2 st] over show ?thesis by simp
  next
    case 3
    from step_cancel [OF 3 st] step_cancel_calls [OF 3 st] over show ?thesis
      unfolding cycleOver_def by (elim disjE conjE) simp_all
  next
    case 4
    from step_destroy [OF 4 st] over show ?thesis
      by (simp add: cycleOver_def)
  next
    case 5
    from step_finish [OF 5 st] show ?thesis
      by (auto simp: cycleOver_def finishCycle_def Let_def emit_def)
  next
    case 6
    from step_rejected_enabled [OF 6 st] over show ?thesis by simp
  qed
qed

lemma cycleOver_exec:
  "cycleOver s \<Longrightarrow> Start \<notin> set es \<Longrightarrow> exec cfg s es = Some s' \<Longrightarrow>
   filter isPullCall (calls s') = filter isPullCall (calls s)"
proof (induction es arbitrary: s)
  case Nil
  then show ?case by simp
next
  case (Cons ev es)
  from Cons.prems obtain t where t: "step cfg s ev = Some t" and r: "exec cfg t es = Some s'"
    by (auto split: option.splits)
  from Cons.prems have ns: "ev \<noteq> Start" "Start \<notin> set es" by auto
  from cycleOver_step [OF Cons.prems(1) ns(1) t]
  have "cycleOver t" and c: "filter isPullCall (calls t) = filter isPullCall (calls s)" by simp_all
  from Cons.IH [OF this(1) ns(2) r] c show ?case by simp
qed

text \<open>
  Claim C7: in a cycle where push is configured and \<open>runPush()\<close> returns false while
  \<open>retryOnFail\<close> is true, \<open>_run\<close> schedules \<open>run()\<close> after \<open>retryTime\<close>
  milliseconds and returns true, and \<open>runPull()\<close> is not invoked in that cycle: no call
  of the pull path is made before the next cycle starts.
\<close>

theorem push_failure_gates_pull:
  assumes at: "pc s = AwaitPushHandler True pushDocs n lastSequence" and retry: "retryOnFail s"
  shows "\<exists>s'. step cfg s (PushRejected e) = Some s' \<and> pc s' = AwaitRun True \<and>
           calls s' = calls s @ [SetTimeoutRun (retryTime cfg)] \<and> timers s' = Suc (timers s) \<and>
           (\<forall>es s''. Start \<notin> set es \<and> exec cfg s' es = Some s'' \<longrightarrow>
              filter isPullCall (calls s'') = filter isPullCall (calls s))"
proof -
  let ?s' = "returnFromRun True (setTimeoutRun cfg (emit (Error e) s))"
  have st: "step cfg s (PushRejected e) = Some ?s'"
    using at retry
    by (simp add: step_def pushRejected_def retRunPush_def afterRunPush_def emit_def)
  have p: "pc ?s' = AwaitRun True"
    by (simp add: returnFromRun_def)
  have c: "calls ?s' = calls s @ [SetTimeoutRun (retryTime cfg)]"
    by (simp add: returnFromRun_def setTimeoutRun_def doCall_def emit_def)
  have t: "timers ?s' = Suc (timers s)"
    by (simp add: returnFromRun_def setTimeoutRun_def doCall_def emit_def)
  have over: "cycleOver ?s'"
    by (simp add: cycleOver_def returnFromRun_def)
  have later: "filter isPullCall (calls s'') = filter isPullCall (calls s)"
    if "Start \<notin> set es" and "exec cfg ?s' es = Some s''" for es s''
    using cycleOver_exec [OF over that] c by simp
  from st p c t later show ?thesis by blast
qed

theorem push_failure_gates_pull_witness:
  "pc awaitingPush =
     AwaitPushHandler True [[(''id'', JStr ''a''), (''name'', JStr ''Alice''), (''_deleted'', JBool False)]] 1 7 \<and>
   retryOnFail awaitingPush \<and>
   (\<exists>s'. step bothLive awaitingPush (PushRejected ''offline'') = Some s' \<and> pc s' = AwaitRun True \<and>
      calls s' = calls awaitingPush @ [SetTimeoutRun 5000])"
proof -
  have 1: "pc awaitingPush =
     AwaitPushHandler True [[(''id'', JStr ''a''), (''name'', JStr ''Alice''), (''_deleted'', JBool False)]] 1 7"
    by (simp add: awaitingPush_eq)
  have 2: "retryOnFail awaitingPush"
    by (simp add: awaitingPush_eq)
  from push_failure_gates_pull [OF 1 2, of bothLive "''offline''"] 1 2 show ?thesis
    by (auto simp: bothLive_def)
qed

section \<open>Invariants of the event loop\<close>

lemma exec_append:
  "exec cfg s (xs @ ys) = (case exec cfg s xs of None \<Rightarrow> None | Some t \<Rightarrow> exec cfg t ys)"
  by (induction xs arbitrary: s) (simp_all split: option.splits)

lemma queueInv_init: "queueInv (replicateRxCollection cfg)"
  by (simp add: queueInv_def replicateRxCollection_def newState_def run_def isStopped_def Let_def)

lemma queueInv_exec: "queueInv s \<Longrightarrow> exec cfg s es = Some s' \<Longrightarrow> queueInv s'"
proof (induction es arbitrary: s)
  case Nil
  then show ?case by simp
next
  case (Cons ev es)
  from Cons.prems obtain t where t: "step cfg s ev = Some t" and r: "exec cfg t es = Some s'"
    by (auto split: option.splits)
  from Cons.IH [OF queueInv_step [OF Cons.prems(1) t] r] show ?case .
qed

lemma count_list_data:
  "list_all isData es \<Longrightarrow> \<not> isData x \<Longrightarrow> count_list es x = 0"
  by (induction es) auto

lemma cycleFrame_count:
  assumes "cycleFrame s s'" and "\<not> isData x"
  shows "count_list (emitted s') x = count_list (emitted s) x"
  using assms unfolding cycleFrame_def by (elim conjE exE) (simp add: count_list_data)

lemma step_count_irc:
  assumes st: "step cfg s ev = Some s'"
  shows "initialReplicationComplete s' =
           (initialReplicationComplete s \<or> (ev = Finish \<and> retryOnFail s \<and> pc s = AwaitRun False)) \<and>
         count_list (emitted s') (InitialReplicationComplete True) =
           count_list (emitted s) (InitialReplicationComplete True) +
             (if initialReplicationComplete s' \<and> \<not> initialReplicationComplete s then 1 else 0) \<and>
         count_list (emitted s') (InitialReplicationComplete False) =
           count_list (emitted s) (InitialReplicationComplete False)"
proof -
  consider "isTrigger ev" | "isCycleEvent ev" | "ev = Cancel" | "ev = Destroy" | "ev = Start"
    | "ev = Finish" | "ev = Rejected"
    using event_kinds by blast
  then show ?thesis
  proof cases
    case 1
    then have "ev \<noteq> Finish" by auto
    with step_trigger [OF 1 st] show ?thesis
      by (simp add: runEffect_def)
  next
    case 2
    then have ne: "ev \<noteq> Finish" by auto
    from step_cycle_event [OF 2 st] have f: "cycleFrame s s'" by simp
    from cycleFrame_fields(4) [OF f] cycleFrame_count [OF f] ne show ?thesis
      by simp
  next
    case 3
    from step_cancel [OF 3 st] 3 show ?thesis
      by (elim disjE conjE) simp_all
  next
    case 4
    from step_destroy [OF 4 st] 4 show ?thesis by simp
  next
    case 5
    from step_start [OF 5 st] obtain r rest where
      f: "cycleFrame ((emit (Active True) (s\<lparr>chain := rest, active := True\<rparr>))
                   \<lparr>retryOnFail := r, runCount := Suc (runCount s)\<rparr>) s'"
      by blast
    from cycleFrame_fields(4) [OF f] cycleFrame_count [OF f] 5 show ?thesis
      by (simp add: emit_def)
  next
    case 6
    from step_finish [OF 6 st] obtain w where w: "pc s = AwaitRun w" "s' = finishCycle w s"
      by blast
    then show ?thesis using 6
      by (cases w) (auto simp: finishCycle_def Let_def emit_def)
  next
    case 7
    from step_rejected [OF 7 st] 7 show ?thesis by simp
  qed
qed

lemma step_count_canceled:
  assumes st: "step cfg s ev = Some s'"
  shows "canceled s' = (canceled s \<or> (ev = Cancel \<and> \<not> isStopped cfg s)) \<and>
         count_list (emitted s') (Canceled True) =
           count_list (emitted s) (Canceled True) +
             (if canceled s' \<and> \<not> canceled s then 1 else 0) \<and>
         count_list (emitted s') (Canceled False) = count_list (emitted s) (Canceled False)"
proof -
  consider "isTrigger ev" | "isCycleEvent ev" | "ev = Cancel" | "ev = Destroy" | "ev = Start"
    | "ev = Finish" | "ev = Rejected"
    using event_kinds by blast
  then show ?thesis
  proof cases
    case 1
    then have "ev \<noteq> Cancel" by auto
    with step_trigger [OF 1 st] show ?thesis
      by (simp add: runEffect_def)
  next
    case 2
    then have ne: "ev \<noteq> Cancel" by auto
    from step_cycle_event [OF 2 st] have f: "cycleFrame s s'" by simp
    from cycleFrame_fields(2) [OF f] cycleFrame_count [OF f] ne show ?thesis
      by simp
  next
    case 3
    from step_cancel [OF 3 st] 3 show ?thesis
      by (elim disjE conjE) (auto simp: isStopped_def split: if_splits)
  next
    case 4
    from step_destroy [OF 4 st] 4 show ?thesis by simp
  next
    case 5
    from step_start [OF 5 st] obtain r rest where
      f: "cycleFrame ((emit (Active True) (s\<lparr>chain := rest, active := True\<rparr>))
                   \<lparr>retryOnFail := r, runCount := Suc (runCount s)\<rparr>) s'"
      by blast
    from cycleFrame_fields(2) [OF f] cycleFrame_count [OF f] 5 show ?thesis
      by (simp add: emit_def)
  next
    case 6
    from step_finish [OF 6 st] obtain w where w: "pc s = AwaitRun w" "s' = finishCycle w s"
      by blast
    then show ?thesis using 6
      by (auto simp: finishCycle_def Let_def emit_def)
  next
    case 7
    from step_rejected [OF 7 st] 7 show ?thesis by simp
  qed
qed

lemma onceInv_irc_step:
  assumes "onceInv InitialReplicationComplete (initialReplicationComplete s) s"
    and "step cfg s ev = Some s'"
  shows "onceInv InitialReplicationComplete (initialReplicationComplete s') s'"
  using assms(1) step_count_irc [OF assms(2)] unfolding onceInv_def
  by (elim conjE) (simp split: if_splits)

lemma onceInv_canceled_step:
  assumes "onceInv Canceled (canceled s) s" and "step cfg s ev = Some s'"
  shows "onceInv Canceled (canceled s') s'"
  using assms(1) step_count_canceled [OF assms(2)] unfolding onceInv_def
  by (elim conjE) (simp split: if_splits)

lemma onceInv_init:
  "onceInv InitialReplicationComplete (initialReplicationComplete (replicateRxCollection cfg))
     (replicateRxCollection cfg)"
  "onceInv Canceled (canceled (replicateRxCollection cfg)) (replicateRxCollection cfg)"
  by (simp_all add: onceInv_def replicateRxCollection_def newState_def run_def isStopped_def Let_def)

lemma onceInv_irc_exec:
  "onceInv InitialReplicationComplete (initialReplicationComplete s) s \<Longrightarrow>
   exec cfg s es = Some s' \<Longrightarrow>
   onceInv InitialReplicationComplete (initialReplicationComplete s') s'"
proof (induction es arbitrary: s)
  case Nil
  then show ?case by simp
next
  case (Cons ev es)
  from Cons.prems obtain t where t: "step cfg s ev = Some t" and r: "exec cfg t es = Some s'"
    by (auto split: option.splits)
  from Cons.IH [OF onceInv_irc_step [OF Cons.prems(1) t] r] show ?case .
qed

lemma onceInv_canceled_exec:
  "onceInv Canceled (canceled s) s \<Longrightarrow> exec cfg s es = Some s' \<Longrightarrow>
   onceInv Canceled (canceled s') s'"
proof (induction es arbitrary: s)
  case Nil
  then show ?case by simp
next
  case (Cons ev es)
  from Cons.prems obtain t where t: "step cfg s ev = Some t" and r: "exec cfg t es = Some s'"
    by (auto split: option.splits)
  from Cons.IH [OF onceInv_canceled_step [OF Cons.prems(1) t] r] show ?case .
qed

lemma irc_stable_exec:
  "initialReplicationComplete s \<Longrightarrow> exec cfg s es = Some s' \<Longrightarrow> initialReplicationComplete s'"
proof (induction es arbitrary: s)
  case Nil
  then show ?case by simp
next
  case (Cons ev es)
  from Cons.prems obtain t where t: "step cfg s ev = Some t" and r: "exec cfg t es = Some s'"
    by (auto split: option.splits)
  from step_count_irc [OF t] Cons.prems(1) have "initialReplicationComplete t" by simp
  from Cons.IH [OF this r] show ?case .
qed

lemma canceled_stable_exec:
  "canceled s \<Longrightarrow> exec cfg s es = Some s' \<Longrightarrow> canceled s'"
proof (induction es arbitrary: s)
  case Nil
  then show ?case by simp
next
  case (Cons ev es)
  from Cons.prems obtain t where t: "step cfg s ev = Some t" and r: "exec cfg t es = Some s'"
    by (auto split: option.splits)
  from step_count_canceled [OF t] Cons.prems(1) have "canceled t" by simp
  from Cons.IH [OF this r] show ?case .
qed

section \<open>Example runs\<close>

lemma run_failedFirstCycle:
  "exec pullLive (replicateRxCollection pullLive) failedFirstCycle =
     Some \<lparr>destroyed = False, canceled = False, active = False, initialReplicationComplete = False,
      runQueueCount = 0, runCount = 1, subscribed = False, timers = 1, chain = [],
      retryOnFail = True, pc = NoCycle,
      emitted = [Active True, Error ''offline'', Active False],
      calls = [GetLastPullDocument ''sync'', PullHandler None, SetTimeoutRun 5000]\<rparr>"
  by (simp add: failedFirstCycle_def pullLive_def eval_defs)

lemma run_intervalCycle:
  "exec pullLive (replicateRxCollection pullLive) (failedFirstCycle @ intervalCycle) =
     Some \<lparr>destroyed = False, canceled = False, active = False, initialReplicationComplete = False,
      runQueueCount = 0, runCount = 2, subscribed = False, timers = 1, chain = [],
      retryOnFail = False, pc = NoCycle,
      emitted = [Active True, Error ''offline'', Active False, Active True, Received remoteDoc,
                 Active False],
      calls = [GetLastPullDocument ''sync'', PullHandler None, SetTimeoutRun 5000,
               GetLastPullDocument ''sync'', PullHandler None,
               HandleDocumentsFromRemote [remoteDoc], SetLastPullDocument ''sync'' remoteDoc]\<rparr>"
  by (simp add: failedFirstCycle_def intervalCycle_def pullLive_def remoteDoc_def eval_defs)

lemma run_cleanCycle:
  "exec pullLive (replicateRxCollection pullLive) cleanCycle =
     Some \<lparr>destroyed = False, canceled = False, active = True, initialReplicationComplete = False,
      runQueueCount = 1, runCount = 1, subscribed = False, timers = 0, chain = [],
      retryOnFail = True, pc = AwaitRun False,
      emitted = [Active True, Received remoteDoc],
      calls = [GetLastPullDocument ''sync'', PullHandler None,
               HandleDocumentsFromRemote [remoteDoc], SetLastPullDocument ''sync'' remoteDoc]\<rparr>"
  by (simp add: cleanCycle_def pullLive_def remoteDoc_def eval_defs)

lemma run_cancelMidCycle:
  "exec pullLive (replicateRxCollection pullLive) cancelMidCycle =
     Some \<lparr>destroyed = False, canceled = True, active = False, initialReplicationComplete = True,
      runQueueCount = 0, runCount = 1, subscribed = False, timers = 0, chain = [],
      retryOnFail = True, pc = NoCycle,
      emitted = [Active True, Canceled True, Active False, InitialReplicationComplete True],
      calls = [GetLastPullDocument ''sync'', PullHandler None]\<rparr>"
  by (simp add: cancelMidCycle_def pullLive_def eval_defs)

lemma run_burst:
  "exec pullLive (replicateRxCollection pullLive) burst =
     Some \<lparr>destroyed = False, canceled = False, active = True, initialReplicationComplete = False,
      runQueueCount = 3, runCount = 1, subscribed = False, timers = 0, chain = [True, True],
      retryOnFail = True, pc = AwaitLastPullDocument True, emitted = [Active True],
      calls = [GetLastPullDocument ''sync'']\<rparr>"
  by (simp add: burst_def pullLive_def eval_defs)

lemma run_burst_drain:
  "exec pullLive (replicateRxCollection pullLive) (burst @ drain) =
     Some \<lparr>destroyed = False, canceled = False, active = False, initialReplicationComplete = True,
      runQueueCount = 0, runCount = 3, subscribed = False, timers = 0, chain = [],
      retryOnFail = True, pc = NoCycle,
      emitted = [Active True, Active False, InitialReplicationComplete True,
                 Active True, Active False, Active True, Active False],
      calls = [GetLastPullDocument ''sync'', PullHandler None, RequestIdlePromise,
               GetLastPullDocument ''sync'', PullHandler None, RequestIdlePromise,
               GetLastPullDocument ''sync'', PullHandler None]\<rparr>"
  by (simp add: burst_def drain_def pullLive_def eval_defs)

section \<open>Initial replication\<close>

text \<open>
  Claim C2, as stated, fails for a cycle started by the interval loop of live mode, which
  calls \<open>run(false)\<close>: after a first cycle that failed (a retry is scheduled), a cycle
  started by the interval tick pulls a document, schedules no retry and is not cancelled,
  and \<open>initialReplicationComplete$\<close> is still false when it has finished.
\<close>

theorem initial_complete_counterexample:
  "exec pullLive (replicateRxCollection pullLive) failedFirstCycle \<noteq> None \<and>
   exec pullLive (the (exec pullLive (replicateRxCollection pullLive) failedFirstCycle))
     intervalCycle \<noteq> None \<and>
   runCount (the (exec pullLive (replicateRxCollection pullLive) (failedFirstCycle @ intervalCycle))) =
     Suc (runCount (the (exec pullLive (replicateRxCollection pullLive) failedFirstCycle))) \<and>
   timers (the (exec pullLive (replicateRxCollection pullLive) (failedFirstCycle @ intervalCycle))) =
     timers (the (exec pullLive (replicateRxCollection pullLive) failedFirstCycle)) \<and>
   pc (the (exec pullLive (replicateRxCollection pullLive) (failedFirstCycle @ intervalCycle))) = NoCycle \<and>
   \<not> canceled (the (exec pullLive (replicateRxCollection pullLive) (failedFirstCycle @ intervalCycle))) \<and>
   \<not> destroyed (the (exec pullLive (replicateRxCollection pullLive) (failedFirstCycle @ intervalCycle))) \<and>
   \<not> initialReplicationComplete
       (the (exec pullLive (replicateRxCollection pullLive) (failedFirstCycle @ intervalCycle)))"
  using run_intervalCycle
  by (simp add: run_failedFirstCycle exec_append)

text \<open>
  Claim C2, amended: \<open>initialReplicationComplete$\<close> emits \<open>true\<close> at most once and
  never \<open>false\<close>, and once true it stays true; it becomes true exactly at the end of a
  cycle that was run with \<open>retryOnFail = true\<close> and scheduled no retry. A cycle run with
  \<open>retryOnFail = false\<close> (the interval loop) never sets it.
\<close>

theorem initial_complete_once:
  assumes reach: "exec cfg (replicateRxCollection cfg) es = Some s"
  shows "count_list (emitted s) (InitialReplicationComplete True) =
           (if initialReplicationComplete s then 1 else 0) \<and>
         count_list (emitted s) (InitialReplicationComplete False) = 0 \<and>
         (\<forall>es' s'. exec cfg s es' = Some s' \<and> initialReplicationComplete s \<longrightarrow>
            initialReplicationComplete s') \<and>
         (\<forall>ev s'. step cfg s ev = Some s' \<longrightarrow>
            initialReplicationComplete s' =
              (initialReplicationComplete s \<or>
               (ev = Finish \<and> retryOnFail s \<and> pc s = AwaitRun False)))"
proof -
  from onceInv_irc_exec [OF onceInv_init(1) reach]
  have once: "onceInv InitialReplicationComplete (initialReplicationComplete s) s" .
  have stable: "initialReplicationComplete s'"
    if "exec cfg s es' = Some s'" and "initialReplicationComplete s" for es' s'
    using irc_stable_exec [OF that(2) that(1)] .
  have change: "initialReplicationComplete s' =
      (initialReplicationComplete s \<or> (ev = Finish \<and> retryOnFail s \<and> pc s = AwaitRun False))"
    if "step cfg s ev = Some s'" for ev s'
    using step_count_irc [OF that] by simp
  from once stable change show ?thesis
    unfolding onceInv_def by blast
qed

theorem initial_complete_once_witness:
  "exec pullLive (replicateRxCollection pullLive) cleanCycle \<noteq> None \<and>
   count_list (emitted (the (exec pullLive (replicateRxCollection pullLive) cleanCycle)))
     (InitialReplicationComplete True) = 0 \<and>
   \<not> initialReplicationComplete (the (exec pullLive (replicateRxCollection pullLive) cleanCycle)) \<and>
   initialReplicationComplete
     (the (step pullLive (the (exec pullLive (replicateRxCollection pullLive) cleanCycle)) Finish))"
proof -
  let ?s = "the (exec pullLive (replicateRxCollection pullLive) cleanCycle)"
  have r: "exec pullLive (replicateRxCollection pullLive) cleanCycle = Some ?s"
    by (simp add: run_cleanCycle)
  have f: "step pullLive ?s Finish = Some (finishCycle False ?s)"
    by (simp add: run_cleanCycle step_def)
  have p: "pc ?s = AwaitRun False" "retryOnFail ?s" "\<not> initialReplicationComplete ?s"
    by (simp_all add: run_cleanCycle)
  from initial_complete_once [OF r] f p show ?thesis
    by (simp add: run_cleanCycle)
qed

section \<open>Cancellation\<close>

text \<open>
  Claim C5, as stated, fails: a cycle that is in flight when \<open>cancel()\<close> is called
  runs on, and its wrapper emits on \<open>active$\<close> (and here on
  \<open>initialReplicationComplete$\<close>) after \<open>canceled$\<close> has emitted \<open>true\<close>.
\<close>

theorem silence_after_cancel_counterexample:
  "exec pullLive (replicateRxCollection pullLive) cancelMidCycle \<noteq> None \<and>
   emitted (the (exec pullLive (replicateRxCollection pullLive) cancelMidCycle)) =
     [Active True, Canceled True, Active False, InitialReplicationComplete True] \<and>
   \<not> silentAfterCancel (emitted (the (exec pullLive (replicateRxCollection pullLive) cancelMidCycle)))"
  by (simp add: run_cancelMidCycle silentAfterCancel_def)

lemma stopped_step_noop:
  assumes stop: "isStopped cfg s" and ev: "isTrigger ev \<or> ev = Cancel"
    and st: "step cfg s ev = Some s'"
  shows "emitted s' = emitted s \<and> chain s' = chain s \<and> calls s' = calls s \<and> pc s' = pc s \<and>
         runQueueCount s' = runQueueCount s"
proof (cases "isTrigger ev")
  case True
  from step_trigger [OF True st] stop show ?thesis
    by (simp add: runEffect_def)
next
  case False
  with ev have c: "ev = Cancel" by simp
  from step_cancel [OF c st] stop show ?thesis by simp
qed

text \<open>
  Claim C5, amended: \<open>canceled$\<close> emits \<open>true\<close> at most once and never \<open>false\<close>;
  once it is true it stays true and \<open>isStopped()\<close> returns true; and from then on a
  call of \<open>run()\<close> or \<open>cancel()\<close>, a retry timer, an interval tick and a change
  event emit nothing, queue no cycle and call no collaborator. What a cycle that was
  already queued or in flight still emits is left open.
\<close>

theorem canceled_once:
  assumes reach: "exec cfg (replicateRxCollection cfg) es = Some s"
  shows "count_list (emitted s) (Canceled True) = (if canceled s then 1 else 0) \<and>
         count_list (emitted s) (Canceled False) = 0 \<and>
         (\<forall>es' s'. exec cfg s es' = Some s' \<and> canceled s \<longrightarrow> canceled s' \<and> isStopped cfg s') \<and>
         (\<forall>ev s'. canceled s \<and> (isTrigger ev \<or> ev = Cancel) \<and> step cfg s ev = Some s' \<longrightarrow>
            emitted s' = emitted s \<and> chain s' = chain s \<and> calls s' = calls s \<and> pc s' = pc s \<and>
            runQueueCount s' = runQueueCount s)"
proof -
  from onceInv_canceled_exec [OF onceInv_init(2) reach]
  have once: "onceInv Canceled (canceled s) s" .
  have stable: "canceled s' \<and> isStopped cfg s'"
    if "exec cfg s es' = Some s'" and "canceled s" for es' s'
    using canceled_stable_exec [OF that(2) that(1)] by (simp add: isStopped_def)
  have noop: "emitted s' = emitted s \<and> chain s' = chain s \<and> calls s' = calls s \<and> pc s' = pc s \<and>
      runQueueCount s' = runQueueCount s"
    if "canceled s" and "isTrigger ev \<or> ev = Cancel" and "step cfg s ev = Some s'" for ev s'
  proof -
    from that(1) have "isStopped cfg s" by (simp add: isStopped_def)
    from stopped_step_noop [OF this that(2) that(3)] show ?thesis .
  qed
  from once stable noop show ?thesis
    unfolding onceInv_def by blast
qed

theorem canceled_once_witness:
  "exec pullLive (replicateRxCollection pullLive) cancelMidCycle \<noteq> None \<and>
   count_list (emitted (the (exec pullLive (replicateRxCollection pullLive) cancelMidCycle)))
     (Canceled True) = 1 \<and>
   canceled (the (exec pullLive (replicateRxCollection pullLive) cancelMidCycle)) \<and>
   step pullLive (the (exec pullLive (replicateRxCollection pullLive) cancelMidCycle)) (Run True) \<noteq> None \<and>
   chain (the (step pullLive (the (exec pullLive (replicateRxCollection pullLive) cancelMidCycle))
     (Run True))) = []"
proof -
  let ?s = "the (exec pullLive (replicateRxCollection pullLive) cancelMidCycle)"
  let ?t = "the (step pullLive ?s (Run True))"
  have r: "exec pullLive (replicateRxCollection pullLive) cancelMidCycle = Some ?s"
    by (simp add: run_cancelMidCycle)
  have c: "canceled ?s" and ch: "chain ?s = []"
    by (simp_all add: run_cancelMidCycle)
  have st: "step pullLive ?s (Run True) = Some ?t"
    by (simp add: step_def)
  note once = canceled_once [OF r]
  from once have cnt: "count_list (emitted ?s) (Canceled True) = (if canceled ?s then 1 else 0)"
    by (rule conjunct1)
  from once have "\<forall>ev s'. canceled ?s \<and> (isTrigger ev \<or> ev = Cancel) \<and> step pullLive ?s ev = Some s' \<longrightarrow>
            emitted s' = emitted ?s \<and> chain s' = chain ?s \<and> calls s' = calls ?s \<and> pc s' = pc ?s \<and>
            runQueueCount s' = runQueueCount ?s"
    by (rule conjunct2 [THEN conjunct2, THEN conjunct2])
  then have "canceled ?s \<and> (isTrigger (Run True) \<or> Run True = Cancel) \<and> step pullLive ?s (Run True) = Some ?t \<longrightarrow>
            emitted ?t = emitted ?s \<and> chain ?t = chain ?s \<and> calls ?t = calls ?s \<and> pc ?t = pc ?s \<and>
            runQueueCount ?t = runQueueCount ?s"
    by blast
  with c st have same: "chain ?t = chain ?s" by simp
  from r have 1: "exec pullLive (replicateRxCollection pullLive) cancelMidCycle \<noteq> None" by auto
  from st have 2: "step pullLive ?s (Run True) \<noteq> None" by auto
  from cnt c have 3: "count_list (emitted ?s) (Canceled True) = 1" by simp
  from same ch have 4: "chain ?t = []" by simp
  from 1 3 c 2 4 show ?thesis by blast
qed

section \<open>Serialization and coalescing\<close>

lemma step_runCount:
  assumes st: "step cfg s ev = Some s'"
  shows "runCount s' = (if ev = Start then Suc (runCount s) else runCount s) \<and>
         length (chain s) = (if ev = Start then Suc (length (chain s')) else length (chain s)) \<and>
         (ev = Start \<longrightarrow> pc s = NoCycle \<and> pc s' \<noteq> NoCycle) \<and>
         (\<not> isTrigger ev \<and> ev \<noteq> Start \<longrightarrow> chain s' = chain s)"
proof -
  consider "isTrigger ev" | "isCycleEvent ev" | "ev = Cancel" | "ev = Destroy" | "ev = Start"
    | "ev = Finish" | "ev = Rejected"
    using event_kinds by blast
  then show ?thesis
  proof cases
    case 1
    then have "ev \<noteq> Start" by auto
    with step_trigger [OF 1 st] 1 show ?thesis
      by (simp add: runEffect_def)
  next
    case 2
    then have ne: "ev \<noteq> Start" by auto
    from step_cycle_event [OF 2 st] have f: "cycleFrame s s'" by simp
    from cycleFrame_fields(6,8) [OF f] ne show ?thesis by simp
  next
    case 3
    from step_cancel [OF 3 st] 3 show ?thesis
      by (elim disjE conjE) simp_all
  next
    case 4
    from step_destroy [OF 4 st] 4 show ?thesis by simp
  next
    case 5
    from step_start [OF 5 st] obtain r rest where
      s: "pc s = NoCycle" "chain s = r # rest" "pc s' \<noteq> NoCycle" and
      f: "cycleFrame ((emit (Active True) (s\<lparr>chain := rest, active := True\<rparr>))
                   \<lparr>retryOnFail := r, runCount := Suc (runCount s)\<rparr>) s'"
      by blast
    from cycleFrame_fields(6,8) [OF f] s 5 show ?thesis
      by (simp add: emit_def)
  next
    case 6
    from step_finish [OF 6 st] 6 show ?thesis
      by (auto simp: finishCycle_def Let_def emit_def)
  next
    case 7
    from step_rejected [OF 7 st] 7 show ?thesis by simp
  qed
qed

text \<open>
  Claim C3, as stated, fails in its bound: three calls of \<open>run()\<close> made while the first
  cycle is in flight queue two cycles (\<open>runQueueCount\<close> goes from 1 to 3, the guard is
  \<open>runQueueCount > 2\<close>), and both execute after the current one.
\<close>

theorem coalescing_counterexample:
  "exec pullLive (replicateRxCollection pullLive) burst \<noteq> None \<and>
   pc (the (exec pullLive (replicateRxCollection pullLive) burst)) = AwaitLastPullDocument True \<and>
   runCount (the (exec pullLive (replicateRxCollection pullLive) burst)) = 1 \<and>
   filter isTrigger drain = [] \<and>
   exec pullLive (the (exec pullLive (replicateRxCollection pullLive) burst)) drain \<noteq> None \<and>
   \<not> runCount (the (exec pullLive (replicateRxCollection pullLive) (burst @ drain))) \<le>
       runCount (the (exec pullLive (replicateRxCollection pullLive) burst)) + 1"
  using run_burst_drain
  by (simp add: run_burst exec_append) (simp add: drain_def)

text \<open>
  Claim C3, amended: cycles never execute in parallel (a cycle starts only when none is
  in flight), and while a cycle is in flight at most two further cycles are queued behind
  it, however many times \<open>run()\<close> is called.
\<close>

theorem cycles_serialized_two_queued:
  assumes reach: "exec cfg (replicateRxCollection cfg) es = Some s"
  shows "(pc s \<noteq> NoCycle \<longrightarrow> length (chain s) \<le> 2) \<and> length (chain s) \<le> 3 \<and>
         (\<forall>ev s'. step cfg s ev = Some s' \<and> runCount s' \<noteq> runCount s \<longrightarrow>
            ev = Start \<and> pc s = NoCycle \<and> pc s' \<noteq> NoCycle \<and> runCount s' = Suc (runCount s))"
proof -
  from queueInv_exec [OF queueInv_init reach] have q: "queueInv s" .
  then have 1: "pc s \<noteq> NoCycle \<longrightarrow> length (chain s) \<le> 2" and 2: "length (chain s) \<le> 3"
    by (auto simp: queueInv_def split: if_splits)
  have 3: "ev = Start \<and> pc s = NoCycle \<and> pc s' \<noteq> NoCycle \<and> runCount s' = Suc (runCount s)"
    if "step cfg s ev = Some s'" and "runCount s' \<noteq> runCount s" for ev s'
    using step_runCount [OF that(1)] that(2) by (cases "ev = Start") simp_all
  from 1 2 3 show ?thesis by blast
qed

theorem cycles_serialized_two_queued_witness:
  "exec pullLive (replicateRxCollection pullLive) burst \<noteq> None \<and>
   pc (the (exec pullLive (replicateRxCollection pullLive) burst)) \<noteq> NoCycle \<and>
   length (chain (the (exec pullLive (replicateRxCollection pullLive) burst))) \<le> 2 \<and>
   step pullLive (the (exec pullLive (replicateRxCollection pullLive) burst)) Start = None"
proof -
  let ?s = "the (exec pullLive (replicateRxCollection pullLive) burst)"
  have r: "exec pullLive (replicateRxCollection pullLive) burst = Some ?s"
    by (simp add: run_burst)
  have p: "pc ?s \<noteq> NoCycle" by (simp add: run_burst)
  have n: "step pullLive ?s Start = None" by (simp add: run_burst step_def)
  from cycles_serialized_two_queued [OF r] p n show ?thesis
    by (simp add: run_burst)
qed

lemma burst_exec:
  "exec cfg s (map Run bs) = Some t \<Longrightarrow> pc t = pc s \<and> runCount t = runCount s"
proof (induction bs arbitrary: s)
  case Nil
  then show ?case by simp
next
  case (Cons b bs)
  from Cons.prems obtain u where u: "step cfg s (Run b) = Some u" and r: "exec cfg u (map Run bs) = Some t"
    by (auto split: option.splits)
  have "isTrigger (Run b)" by simp
  from step_trigger [OF this u] have "pc u = pc s" "runCount u = runCount s"
    by (simp_all add: runEffect_def)
  with Cons.IH [OF r] show ?case by simp
qed

lemma drain_exec:
  "\<forall>ev\<in>set es. \<not> isTrigger ev \<Longrightarrow> exec cfg s es = Some s' \<Longrightarrow>
   runCount s' + length (chain s') = runCount s + length (chain s)"
proof (induction es arbitrary: s)
  case Nil
  then show ?case by simp
next
  case (Cons ev es)
  from Cons.prems obtain t where t: "step cfg s ev = Some t" and r: "exec cfg t es = Some s'"
    by (auto split: option.splits)
  from Cons.prems have nt: "\<not> isTrigger ev" "\<forall>ev\<in>set es. \<not> isTrigger ev" by simp_all
  from step_runCount [OF t] nt(1)
  have "runCount t + length (chain t) = runCount s + length (chain s)"
    by (cases "ev = Start") simp_all
  with Cons.IH [OF nt(2) r] show ?case by simp
qed

text \<open>
  Claim C4: firing \<open>run()\<close> \<open>N \<ge> 3\<close> times while one cycle is in flight results in
  at most two additional cycles executing thereafter (as long as nothing calls \<open>run()\<close>
  again).
\<close>

theorem bounded_coalescing:
  assumes reach: "exec cfg (replicateRxCollection cfg) es0 = Some s"
    and flight: "pc s \<noteq> NoCycle"
    and many: "3 \<le> length bs"
    and quiet: "\<forall>ev\<in>set es. \<not> isTrigger ev"
    and after: "exec cfg s (map Run bs @ es) = Some s'"
  shows "runCount s' \<le> runCount s + 2"
proof -
  from after obtain t where b: "exec cfg s (map Run bs) = Some t" and d: "exec cfg t es = Some s'"
    by (auto simp: exec_append split: option.splits)
  from queueInv_exec [OF queueInv_exec [OF queueInv_init reach] b] have q: "queueInv t" .
  from burst_exec [OF b] flight have same: "pc t \<noteq> NoCycle" "runCount t = runCount s"
    by simp_all
  from q same(1) have "length (chain t) \<le> 2"
    by (simp add: queueInv_def)
  with drain_exec [OF quiet d] same(2) show ?thesis by simp
qed

lemma run_startOnly:
  "exec pullLive (replicateRxCollection pullLive) startOnly =
     Some \<lparr>destroyed = False, canceled = False, active = True, initialReplicationComplete = False,
      runQueueCount = 1, runCount = 1, subscribed = False, timers = 0, chain = [],
      retryOnFail = True, pc = AwaitLastPullDocument True, emitted = [Active True],
      calls = [GetLastPullDocument ''sync'']\<rparr>"
  by (simp add: startOnly_def pullLive_def eval_defs)

lemma run_fourRuns_drain:
  "exec pullLive (the (exec pullLive (replicateRxCollection pullLive) startOnly))
       (map Run fourRuns @ drain) =
     Some \<lparr>destroyed = False, canceled = False, active = False, initialReplicationComplete = True,
      runQueueCount = 0, runCount = 3, subscribed = False, timers = 0, chain = [],
      retryOnFail = True, pc = NoCycle,
      emitted = [Active True, Active False, InitialReplicationComplete True,
                 Active True, Active False, Active True, Active False],
      calls = [GetLastPullDocument ''sync'', PullHandler None, RequestIdlePromise,
               GetLastPullDocument ''sync'', PullHandler None, RequestIdlePromise,
               GetLastPullDocument ''sync'', PullHandler None]\<rparr>"
  by (simp add: run_startOnly) (simp add: fourRuns_def drain_def pullLive_def eval_defs)

theorem bounded_coalescing_witness:
  "exec pullLive (replicateRxCollection pullLive) startOnly \<noteq> None \<and>
   pc (the (exec pullLive (replicateRxCollection pullLive) startOnly)) \<noteq> NoCycle \<and>
   3 \<le> length fourRuns \<and>
   exec pullLive (the (exec pullLive (replicateRxCollection pullLive) startOnly))
     (map Run fourRuns @ drain) \<noteq> None \<and>
   runCount (the (exec pullLive (the (exec pullLive (replicateRxCollection pullLive) startOnly))
     (map Run fourRuns @ drain))) \<le>
   runCount (the (exec pullLive (replicateRxCollection pullLive) startOnly)) + 2"
proof -
  let ?s = "the (exec pullLive (replicateRxCollection pullLive) startOnly)"
  let ?s' = "the (exec pullLive ?s (map Run fourRuns @ drain))"
  have r: "exec pullLive (replicateRxCollection pullLive) startOnly = Some ?s"
    by (simp add: run_startOnly)
  have p: "pc ?s \<noteq> NoCycle"
    by (simp add: run_startOnly)
  have a: "exec pullLive ?s (map Run fourRuns @ drain) = Some ?s'"
    by (simp add: run_fourRuns_drain)
  have q: "\<forall>ev\<in>set drain. \<not> isTrigger ev"
    by (simp add: drain_def)
  have m: "3 \<le> length fourRuns" by (simp add: fourRuns_def)
  note bound = bounded_coalescing [OF r p m q a]
  from r have 1: "exec pullLive (replicateRxCollection pullLive) startOnly \<noteq> None" by auto
  from a have 2: "exec pullLive ?s (map Run fourRuns @ drain) \<noteq> None" by auto
  from 1 p m 2 bound show ?thesis by blast
qed

section \<open>Revisions of pulled documents\<close>

lemma map_of_replace:
  "map_of obj k \<noteq> None \<Longrightarrow>
   map_of (map (\<lambda>kv. if fst kv = k then (k, v) else kv) obj) k = Some v"
  by (induction obj) auto

lemma getProp_setProp: "getProp (setProp obj k v) k = v"
  by (simp add: getProp_def setProp_def hasOwnProperty_def map_of_replace map_of_append
      map_add_def split: option.splits)

lemma filter_replace:
  "filter (\<lambda>kv. fst kv \<noteq> k) (map (\<lambda>kv. if fst kv = k then (k, v) else kv) obj) =
   filter (\<lambda>kv. fst kv \<noteq> k) obj"
  by (induction obj) auto

lemma deleteProp_setProp: "deleteProp (setProp obj k v) k = deleteProp obj k"
  by (simp add: deleteProp_def setProp_def filter_replace)

lemma map_of_findDocumentsById:
  "k \<in> set ids \<Longrightarrow> map_of (findDocumentsById storage ids) k = map_of storage k"
  unfolding findDocumentsById_def by (induction storage) auto

lemma tagDocs_Cons:
  "tagDocs ident env docsFromLocal (d # docs) h acc =
     tagDocs ident env docsFromLocal docs
       (h @ [setProp (h ! d) ''_rev''
               (JStr (pulledRevision ident env
                  (map_of docsFromLocal (getProp (h ! d) (primaryPath env))) (h ! d)))])
       (acc @ [length h])"
  by (simp add: flatClone_def Let_def)

lemma tagDocs_spec:
  assumes "\<forall>a\<in>set docs. a < length h"
  shows "\<exists>h'. tagDocs ident env docsFromLocal docs h acc =
            (h', acc @ [length h ..< length h + length docs]) \<and>
          length h' = length h + length docs \<and>
          (\<forall>a<length h. h' ! a = h ! a) \<and>
          (\<forall>i<length docs.
             h' ! (length h + i) =
               setProp (h ! (docs ! i)) ''_rev''
                 (JStr (pulledRevision ident env
                    (map_of docsFromLocal (getProp (h ! (docs ! i)) (primaryPath env)))
                    (h ! (docs ! i)))))"
  using assms
proof (induction docs arbitrary: h acc)
  case Nil
  then show ?case by simp
next
  case (Cons d docs)
  let ?obj = "setProp (h ! d) ''_rev''
               (JStr (pulledRevision ident env
                  (map_of docsFromLocal (getProp (h ! d) (primaryPath env))) (h ! d)))"
  let ?h2 = "h @ [?obj]"
  from Cons.prems have wf2: "\<forall>a\<in>set docs. a < length ?h2" by auto
  from Cons.IH [OF wf2, of "acc @ [length h]"] obtain h' where
    eq: "tagDocs ident env docsFromLocal docs ?h2 (acc @ [length h]) =
           (h', (acc @ [length h]) @ [length ?h2 ..< length ?h2 + length docs])" and
    len: "length h' = length ?h2 + length docs" and
    old: "\<forall>a<length ?h2. h' ! a = ?h2 ! a" and
    new: "\<forall>i<length docs.
             h' ! (length ?h2 + i) =
               setProp (?h2 ! (docs ! i)) ''_rev''
                 (JStr (pulledRevision ident env
                    (map_of docsFromLocal (getProp (?h2 ! (docs ! i)) (primaryPath env)))
                    (?h2 ! (docs ! i))))"
    by blast
  have u: "[length h ..< length h + length (d # docs)] =
      length h # [length ?h2 ..< length ?h2 + length docs]"
    by (simp add: upt_conv_Cons del: upt_Suc)
  have 1: "tagDocs ident env docsFromLocal (d # docs) h acc =
            (h', acc @ [length h ..< length h + length (d # docs)])"
    unfolding tagDocs_Cons u using eq by simp
  have 2: "length h' = length h + length (d # docs)"
    using len by simp
  have 3: "\<forall>a<length h. h' ! a = h ! a"
    using old by (simp add: nth_append)
  have 4: "h' ! (length h + i) =
               setProp (h ! ((d # docs) ! i)) ''_rev''
                 (JStr (pulledRevision ident env
                    (map_of docsFromLocal (getProp (h ! ((d # docs) ! i)) (primaryPath env)))
                    (h ! ((d # docs) ! i))))"
    if "i < length (d # docs)" for i
  proof (cases i)
    case 0
    from old have "h' ! length h = ?h2 ! length h" by simp
    with 0 show ?thesis by simp
  next
    case (Suc j)
    with that have j: "j < length docs" by simp
    with Cons.prems have "docs ! j < length h" by simp
    then have same: "?h2 ! (docs ! j) = h ! (docs ! j)" by (simp add: nth_append)
    from new j have "h' ! (length ?h2 + j) =
               setProp (?h2 ! (docs ! j)) ''_rev''
                 (JStr (pulledRevision ident env
                    (map_of docsFromLocal (getProp (?h2 ! (docs ! j)) (primaryPath env)))
                    (?h2 ! (docs ! j))))" by blast
    with same Suc show ?thesis by simp
  qed
  from 1 2 3 4 show ?case by blast
qed

lemma jsToString_jsPlusOne_safe:
  assumes "isSafeInteger n"
  shows "jsToString env (jsPlusOne env (Whole n)) = numberToString (n + 1)"
proof -
  from assms have "abs (n + 1) \<le> 2 ^ 53"
    by (simp add: isSafeInteger_def)
  with assms show ?thesis
    by (simp add: jsToString_def jsPlusOne_def)
qed

lemma jsToString_jsPlusOne_NaN: "jsToString env (jsPlusOne env NaN) = ''NaN''"
  by (simp add: jsToString_def jsPlusOne_def)

text \<open>
  At the edge of the safe range: the largest safe integer still gets its successor, and
  from \<open>2^53\<close> on the sum is the one JavaScript rounds to, which the environment
  gives.
\<close>

lemma jsPlusOne_largest_safe:
  "jsToString env (jsPlusOne env (Whole 9007199254740991)) = ''9007199254740992''"
  by (simp add: jsToString_def jsPlusOne_def isSafeInteger_def numberToString_def
      natToString.simps)

lemma jsPlusOne_beyond_safe:
  "jsPlusOne env (Whole 9007199254740992) = plusOneOutsideSafe env (Whole 9007199254740992)"
  by (simp add: jsPlusOne_def isSafeInteger_def)

text \<open>The example pull, evaluated step by step.\<close>

lemma revAlice:
  "pulledRevision ''sync'' exampleEnv (map_of exampleStorage (JStr ''a'')) remoteAlice = ''10-syncAlice''"
  by (simp add: pulledRevision_def jsPlusOne_def jsToString_def isSafeInteger_def numberToString_def
      natToString.simps getProp_def exampleEnv_def exampleStorage_def remoteAlice_def Let_def)

lemma revBob:
  "pulledRevision ''sync'' exampleEnv (map_of exampleStorage (JStr ''b'')) remoteDoc = ''1-syncBob''"
  by (simp add: pulledRevision_def getProp_def exampleEnv_def exampleStorage_def remoteDoc_def Let_def)

lemma revCarol:
  "pulledRevision ''sync'' exampleEnv (map_of exampleStorage (JStr ''c'')) remoteCarol = ''NaN-syncCarol''"
  by (simp add: pulledRevision_def jsPlusOne_def jsToString_def getProp_def exampleEnv_def
      exampleStorage_def remoteCarol_def Let_def)

lemma example_ids:
  "getProp remoteAlice ''id'' = JStr ''a''" "getProp remoteDoc ''id'' = JStr ''b''"
  "getProp remoteCarol ''id'' = JStr ''c''" "primaryPath exampleEnv = ''id''"
  by (simp_all add: getProp_def remoteAlice_def remoteDoc_def remoteCarol_def exampleEnv_def)

lemma example_setRev:
  "setProp remoteAlice ''_rev'' v = remoteAlice @ [(''_rev'', v)]"
  "setProp remoteDoc ''_rev'' v = remoteDoc @ [(''_rev'', v)]"
  "setProp remoteCarol ''_rev'' v = remoteCarol @ [(''_rev'', v)]"
  by (simp_all add: setProp_def hasOwnProperty_def remoteAlice_def remoteDoc_def remoteCarol_def)

lemma example_local:
  "findDocumentsById exampleStorage [JStr ''a'', JStr ''b'', JStr ''c''] = exampleStorage"
  by (simp add: findDocumentsById_def exampleStorage_def)

lemma example_tagDocs:
  "tagDocs ''sync'' exampleEnv exampleStorage [0, 1, 2] [remoteAlice, remoteDoc, remoteCarol] [] =
     ([remoteAlice, remoteDoc, remoteCarol,
       remoteAlice @ [(''_rev'', JStr ''10-syncAlice'')],
       remoteDoc @ [(''_rev'', JStr ''1-syncBob'')],
       remoteCarol @ [(''_rev'', JStr ''NaN-syncCarol'')]],
      [3, 4, 5])"
  by (simp add: tagDocs_Cons example_ids example_setRev revAlice revBob revCarol
      del: tagDocs.simps(2))

lemma example_run:
  "handleDocumentsFromRemote ''sync'' exampleEnv exampleStorage
       [remoteAlice, remoteDoc, remoteCarol] [0, 1, 2] =
     ([remoteAlice, remoteDoc, remoteCarol,
       remoteAlice @ [(''_rev'', JStr ''10-syncAlice'')],
       remoteDoc @ [(''_rev'', JStr ''1-syncBob'')],
       remoteCarol @ [(''_rev'', JStr ''NaN-syncCarol'')]],
      [3, 4, 5],
      Some [remoteAlice @ [(''_rev'', JStr ''10-syncAlice'')],
            remoteDoc @ [(''_rev'', JStr ''1-syncBob'')],
            remoteCarol @ [(''_rev'', JStr ''NaN-syncCarol'')]])"
proof -
  have ids: "map (\<lambda>doc. getProp ([remoteAlice, remoteDoc, remoteCarol] ! doc) (primaryPath exampleEnv))
      [0, 1, 2] = [JStr ''a'', JStr ''b'', JStr ''c'']"
    by (simp add: example_ids)
  show ?thesis
    unfolding handleDocumentsFromRemote_def Let_def ids example_local example_tagDocs
    by simp
qed

text \<open>
  Claim C9: for every pulled document applied to local storage, the new \<open>_rev\<close> is
  \<open>(existingHeight + 1) + '-' + createRevisionForPulledDocument(identity, doc)\<close> when a
  locally stored version of that document id exists and
  \<open>'1-' + createRevisionForPulledDocument(identity, doc)\<close> otherwise; the pulled
  document object itself is not mutated: a shallow clone, equal to it in every other
  property, carries the new revision. The sum and the concatenation are JavaScript's:
  for a stored height that is a safe integer \<open>n\<close> the revision starts with the digits
  of \<open>n + 1\<close>, for a stored revision without a height it starts with \<open>NaN\<close>.
\<close>

theorem pulled_revision_tagging:
  assumes wf: "\<forall>a\<in>set docs. a < length h"
  shows "\<exists>h' toStorageDocs.
           handleDocumentsFromRemote ident env storage h docs =
             (h', toStorageDocs,
              if docs = [] then None else Some (map (\<lambda>doc. h' ! doc) toStorageDocs)) \<and>
           length toStorageDocs = length docs \<and>
           (\<forall>a<length h. h' ! a = h ! a) \<and>
           (\<forall>i<length docs.
              length h \<le> toStorageDocs ! i \<and>
              getProp (h' ! (toStorageDocs ! i)) ''_rev'' =
                JStr (case map_of storage (getProp (h ! (docs ! i)) (primaryPath env)) of
                        Some st \<Rightarrow>
                          jsToString env
                            (jsPlusOne env (getHeightOfRevision env (getProp st ''_rev''))) @
                          ''-'' @ createRevisionForPulledDocument env ident (h ! (docs ! i))
                      | None \<Rightarrow> ''1-'' @ createRevisionForPulledDocument env ident (h ! (docs ! i))) \<and>
              (\<forall>st n. map_of storage (getProp (h ! (docs ! i)) (primaryPath env)) = Some st \<and>
                 getHeightOfRevision env (getProp st ''_rev'') = Whole n \<and> isSafeInteger n \<longrightarrow>
                 getProp (h' ! (toStorageDocs ! i)) ''_rev'' =
                   JStr (numberToString (n + 1) @ ''-'' @
                         createRevisionForPulledDocument env ident (h ! (docs ! i)))) \<and>
              (\<forall>st. map_of storage (getProp (h ! (docs ! i)) (primaryPath env)) = Some st \<and>
                 getHeightOfRevision env (getProp st ''_rev'') = NaN \<longrightarrow>
                 getProp (h' ! (toStorageDocs ! i)) ''_rev'' =
                   JStr (''NaN-'' @ createRevisionForPulledDocument env ident (h ! (docs ! i)))) \<and>
              deleteProp (h' ! (toStorageDocs ! i)) ''_rev'' = deleteProp (h ! (docs ! i)) ''_rev'')"
proof -
  let ?ids = "map (\<lambda>doc. getProp (h ! doc) (primaryPath env)) docs"
  let ?local = "findDocumentsById storage ?ids"
  from tagDocs_spec [OF wf, of ident env ?local "[]"] obtain h' where
    eq: "tagDocs ident env ?local docs h [] = (h', [length h ..< length h + length docs])" and
    old: "\<forall>a<length h. h' ! a = h ! a" and
    new: "\<forall>i<length docs.
             h' ! (length h + i) =
               setProp (h ! (docs ! i)) ''_rev''
                 (JStr (pulledRevision ident env
                    (map_of ?local (getProp (h ! (docs ! i)) (primaryPath env)))
                    (h ! (docs ! i))))"
    by auto
  let ?out = "[length h ..< length h + length docs]"
  have 1: "handleDocumentsFromRemote ident env storage h docs =
             (h', ?out, if docs = [] then None else Some (map (\<lambda>doc. h' ! doc) ?out))"
    using eq by (simp add: handleDocumentsFromRemote_def Let_def)
  have 2: "length ?out = length docs" by simp
  have 3: "length h \<le> ?out ! i \<and>
              getProp (h' ! (?out ! i)) ''_rev'' =
                JStr (case map_of storage (getProp (h ! (docs ! i)) (primaryPath env)) of
                        Some st \<Rightarrow>
                          jsToString env
                            (jsPlusOne env (getHeightOfRevision env (getProp st ''_rev''))) @
                          ''-'' @ createRevisionForPulledDocument env ident (h ! (docs ! i))
                      | None \<Rightarrow> ''1-'' @ createRevisionForPulledDocument env ident (h ! (docs ! i))) \<and>
              (\<forall>st n. map_of storage (getProp (h ! (docs ! i)) (primaryPath env)) = Some st \<and>
                 getHeightOfRevision env (getProp st ''_rev'') = Whole n \<and> isSafeInteger n \<longrightarrow>
                 getProp (h' ! (?out ! i)) ''_rev'' =
                   JStr (numberToString (n + 1) @ ''-'' @
                         createRevisionForPulledDocument env ident (h ! (docs ! i)))) \<and>
              (\<forall>st. map_of storage (getProp (h ! (docs ! i)) (primaryPath env)) = Some st \<and>
                 getHeightOfRevision env (getProp st ''_rev'') = NaN \<longrightarrow>
                 getProp (h' ! (?out ! i)) ''_rev'' =
                   JStr (''NaN-'' @ createRevisionForPulledDocument env ident (h ! (docs ! i)))) \<and>
              deleteProp (h' ! (?out ! i)) ''_rev'' = deleteProp (h ! (docs ! i)) ''_rev''"
    if i: "i < length docs" for i
  proof -
    from i have idx: "?out ! i = length h + i" by simp
    from i have "getProp (h ! (docs ! i)) (primaryPath env) \<in> set ?ids" by auto
    then have loc: "map_of ?local (getProp (h ! (docs ! i)) (primaryPath env)) =
        map_of storage (getProp (h ! (docs ! i)) (primaryPath env))"
      by (rule map_of_findDocumentsById)
    from new i have obj: "h' ! (length h + i) =
               setProp (h ! (docs ! i)) ''_rev''
                 (JStr (pulledRevision ident env
                    (map_of ?local (getProp (h ! (docs ! i)) (primaryPath env)))
                    (h ! (docs ! i))))" by blast
    have rev: "getProp (h' ! (?out ! i)) ''_rev'' =
        JStr (pulledRevision ident env
                (map_of storage (getProp (h ! (docs ! i)) (primaryPath env))) (h ! (docs ! i)))"
      unfolding idx obj loc by (simp add: getProp_setProp)
    have del: "deleteProp (h' ! (?out ! i)) ''_rev'' = deleteProp (h ! (docs ! i)) ''_rev''"
      unfolding idx obj by (simp add: deleteProp_setProp)
    have general: "getProp (h' ! (?out ! i)) ''_rev'' =
                JStr (case map_of storage (getProp (h ! (docs ! i)) (primaryPath env)) of
                        Some st \<Rightarrow>
                          jsToString env
                            (jsPlusOne env (getHeightOfRevision env (getProp st ''_rev''))) @
                          ''-'' @ createRevisionForPulledDocument env ident (h ! (docs ! i))
                      | None \<Rightarrow> ''1-'' @ createRevisionForPulledDocument env ident (h ! (docs ! i)))"
      unfolding rev by (simp add: pulledRevision_def Let_def split: option.splits)
    have safe: "getProp (h' ! (?out ! i)) ''_rev'' =
                   JStr (numberToString (n + 1) @ ''-'' @
                         createRevisionForPulledDocument env ident (h ! (docs ! i)))"
      if "map_of storage (getProp (h ! (docs ! i)) (primaryPath env)) = Some st"
        and "getHeightOfRevision env (getProp st ''_rev'') = Whole n" and "isSafeInteger n"
      for st n
      unfolding general using that by (simp add: jsToString_jsPlusOne_safe)
    have nan: "getProp (h' ! (?out ! i)) ''_rev'' =
                   JStr (''NaN-'' @ createRevisionForPulledDocument env ident (h ! (docs ! i)))"
      if "map_of storage (getProp (h ! (docs ! i)) (primaryPath env)) = Some st"
        and "getHeightOfRevision env (getProp st ''_rev'') = NaN"
      for st
      unfolding general using that by (simp add: jsToString_jsPlusOne_NaN)
    from idx have fresh: "length h \<le> ?out ! i" by simp
    from fresh general safe nan del show ?thesis by blast
  qed
  from 1 2 old 3 show ?thesis by blast
qed

theorem pulled_revision_tagging_witness:
  "handleDocumentsFromRemote ''sync'' exampleEnv exampleStorage
       [remoteAlice, remoteDoc, remoteCarol] [0, 1, 2] =
     ([remoteAlice, remoteDoc, remoteCarol,
       remoteAlice @ [(''_rev'', JStr ''10-syncAlice'')],
       remoteDoc @ [(''_rev'', JStr ''1-syncBob'')],
       remoteCarol @ [(''_rev'', JStr ''NaN-syncCarol'')]],
      [3, 4, 5],
      Some [remoteAlice @ [(''_rev'', JStr ''10-syncAlice'')],
            remoteDoc @ [(''_rev'', JStr ''1-syncBob'')],
            remoteCarol @ [(''_rev'', JStr ''NaN-syncCarol'')]])"
proof -
  have wf: "\<forall>a\<in>set [0, 1, 2]. a < length [remoteAlice, remoteDoc, remoteCarol]" by simp
  from pulled_revision_tagging [OF wf, of "''sync''" exampleEnv exampleStorage]
  show ?thesis
    by (simp only: example_run)
qed

end
